theory Spec2Isabelle
  imports Complex_Main
begin

section \<open>The runner of \<^verbatim>\<open>lib/runner.js\<close>: data model\<close>

text \<open>
  The runner forks worker processes, receives their messages one at a time on a single
  thread, buffers their stats snapshots and emits \<^verbatim>\<open>phaseStarted\<close>, \<^verbatim>\<open>stats\<close> and
  \<^verbatim>\<open>done\<close> events. Mutation of \<^verbatim>\<open>this\<close> is explicit state passing; the events emitted by
  a call are returned as a list, oldest first; a JavaScript \<^verbatim>\<open>TypeError\<close> is a value.

  JavaScript numbers are modelled as exact rationals (the concurrency gauge is a count,
  where doubles are exact).
\<close>

datatype error = TypeError

text \<open>
  A JavaScript object with integer-like keys (process ids): an association list kept in
  ascending key order, the order in which such keys are enumerated.
\<close>

type_synonym 'v obj = "(nat \<times> 'v) list"

definition obj_get :: "'v obj \<Rightarrow> nat \<Rightarrow> 'v option" where
  "obj_get kvs k = map_of kvs k"

fun obj_set :: "nat \<Rightarrow> 'v \<Rightarrow> 'v obj \<Rightarrow> 'v obj" where
  "obj_set k v [] = [(k, v)]"
| "obj_set k v ((k', v') # kvs) =
     (if k < k' then (k, v) # (k', v') # kvs
      else if k = k' then (k, v) # kvs
      else (k', v') # obj_set k v kvs)"

definition obj_keys :: "'v obj \<Rightarrow> nat list" where
  "obj_keys kvs = map fst kvs"

definition obj_values :: "'v obj \<Rightarrow> 'v list" where
  "obj_values kvs = map snd kvs"

text \<open>A stats snapshot: the \<^verbatim>\<open>_concurrency\<close> gauge and the rest, opaque to the runner.\<close>

record 'a snapshot =
  concurrency :: rat
  measurements :: 'a

record phase =
  index :: int
  info :: string

text \<open>The script: \<^verbatim>\<open>config.statsInterval\<close> (seconds) and the rest, which the runner never reads.\<close>

record script =
  statsInterval :: nat
  plan :: string

record process =
  proc_pid :: nat
  killed :: bool
  sent :: "script list"

record worker =
  proc :: process
  isDone :: bool

text \<open>
  A message from a worker. The handler reads \<^verbatim>\<open>event\<close> first and then only the fields of
  that kind of message; the fields a kind does not carry are never read.
\<close>

record 'a message =
  event :: string
  phase :: phase
  pid :: nat
  stats :: "'a snapshot"

datatype 'a emitted =
  PhaseStartedEv phase
| StatsEv "'a snapshot"
| DoneEv "'a snapshot"

record 'a runner =
  script_of :: script
  workers :: "worker obj"
  intermediates :: "(nat \<times> 'a snapshot) list"
  allIntermediates :: "'a snapshot list"
  currentPhase :: int
  timers :: "nat list"

text \<open>The constructor \<^verbatim>\<open>Runner(script, payload, opts)\<close>; no timer is registered yet.\<close>

definition Runner :: "script \<Rightarrow> 'a runner" where
  "Runner s = \<lparr> script_of = s, workers = [], intermediates = [], allIntermediates = [],
                currentPhase = - 1, timers = [] \<rparr>"

section \<open>Operations\<close>

text \<open>
  \<^verbatim>\<open>_sendStats\<close>. The primitives \<^verbatim>\<open>stats.round\<close> and \<^verbatim>\<open>stats.combine\<close> belong to the
  package artillery-core and are parameters \<open>rnd\<close> and \<open>combine\<close>.
\<close>

definition maxConcurrencyOf :: "rat obj \<Rightarrow> nat \<times> 'a snapshot \<Rightarrow> rat obj" where
  "maxConcurrencyOf acc el =
     (let p = fst el; intermediate = snd el in
      (case obj_get acc p of
         Some v \<Rightarrow> obj_set p (max v (concurrency intermediate)) acc
       | None \<Rightarrow> obj_set p (concurrency intermediate) acc))"

definition maxWorkerConcurrencies :: "(nat \<times> 'a snapshot) list \<Rightarrow> rat obj" where
  "maxWorkerConcurrencies buf = foldl maxConcurrencyOf [] buf"

definition sendStats ::
  "(rat \<Rightarrow> nat \<Rightarrow> rat) \<Rightarrow> ('a snapshot list \<Rightarrow> 'a snapshot) \<Rightarrow> 'a runner
     \<Rightarrow> 'a runner \<times> 'a emitted list" where
  "sendStats rnd combine st =
     (let averageConcurrency =
            rnd (sum_list (obj_values (maxWorkerConcurrencies (intermediates st)))) 1;
          combined = combine (map snd (intermediates st));
          combined = combined\<lparr>concurrency := averageConcurrency\<rparr>
      in (st\<lparr>intermediates := []\<rparr>, [StatsEv combined]))"

text \<open>
  \<^verbatim>\<open>_activeWorkerCount\<close>. Every key comes from \<^verbatim>\<open>Object.keys\<close>, so the lookup in the loop
  always finds an entry.
\<close>

definition activeWorkerCount :: "'a runner \<Rightarrow> int" where
  "activeWorkerCount st =
     (let pids = obj_keys (workers st) in
      foldl (\<lambda>count p.
               (case obj_get (workers st) p of
                  Some w \<Rightarrow> if isDone w then count - 1 else count
                | None \<Rightarrow> count))
            (int (length pids)) pids)"

text \<open>
  \<^verbatim>\<open>_onWorkerMessage\<close>: four \<^verbatim>\<open>if\<close> statements in sequence. In the last one
  \<^verbatim>\<open>this._workers[message.pid]\<close> is \<^verbatim>\<open>undefined\<close> for an unknown pid, and the assignment
  to \<^verbatim>\<open>worker.isDone\<close> throws.
\<close>

definition onWorkerMessage ::
  "(rat \<Rightarrow> nat \<Rightarrow> rat) \<Rightarrow> ('a snapshot list \<Rightarrow> 'a snapshot) \<Rightarrow> 'a runner \<Rightarrow> 'a message
     \<Rightarrow> error + ('a runner \<times> 'a emitted list)" where
  "onWorkerMessage rnd combine st m =
     (let (st1, ev1) =
            (if event m = ''phaseStarted'' then
               (if index (phase m) > currentPhase st
                then (st\<lparr>currentPhase := index (phase m)\<rparr>, [PhaseStartedEv (phase m)])
                else (st, []))
             else (st, []));
          st2 =
            (if event m = ''stats'' then
               st1\<lparr>intermediates := intermediates st1 @ [(pid m, stats m)],
                   allIntermediates := allIntermediates st1 @ [stats m]\<rparr>
             else st1)
      in
      if event m = ''done'' then
        (case obj_get (workers st2) (pid m) of
           None \<Rightarrow> Inl TypeError
         | Some w \<Rightarrow>
             let w' = w\<lparr>isDone := True, proc := (proc w)\<lparr>killed := True\<rparr>\<rparr>;
                 st3 = st2\<lparr>workers := obj_set (pid m) w' (workers st2)\<rparr>
             in
             if activeWorkerCount st3 = 0 then
               (let (st4, ev4) = sendStats rnd combine st3
                in Inr (st4, ev1 @ ev4 @ [DoneEv (combine (allIntermediates st4))]))
             else Inr (st3, ev1))
      else Inr (st2, ev1))"

text \<open>
  \<^verbatim>\<open>run\<close>. A JavaScript value as the pool-size expression sees it: an environment
  variable is a string or \<^verbatim>\<open>undefined\<close>, the other operands are numbers. The operator
  \<^verbatim>\<open>||\<close> yields its left operand when that is truthy and its right operand otherwise.
\<close>

datatype jsval = Undefined | Str string | Num nat

fun truthy :: "jsval \<Rightarrow> bool" where
  "truthy Undefined = False"
| "truthy (Str s) = (s \<noteq> [])"
| "truthy (Num n) = (n \<noteq> 0)"

definition js_or :: "jsval \<Rightarrow> jsval \<Rightarrow> jsval" where
  "js_or a b = (if truthy a then a else b)"

definition env_value :: "string option \<Rightarrow> jsval" where
  "env_value v = (case v of None \<Rightarrow> Undefined | Some s \<Rightarrow> Str s)"

text \<open>\<^verbatim>\<open>process.env.ARTILLERY_WORKERS || 1 || os.cpus().length\<close>\<close>

definition numWorkers :: "string option \<Rightarrow> nat \<Rightarrow> jsval" where
  "numWorkers env cpus = js_or (js_or (env_value env) (Num 1)) (Num cpus)"

text \<open>
  The number of workers a pool-size value asks for: a number itself, a string the number
  it writes in decimal digits. How JavaScript reads any other string is not modelled.
\<close>

definition digit :: "char \<Rightarrow> nat option" where
  "digit c =
     map_of [(CHR ''0'', 0), (CHR ''1'', 1), (CHR ''2'', 2), (CHR ''3'', 3), (CHR ''4'', 4),
             (CHR ''5'', 5), (CHR ''6'', 6), (CHR ''7'', 7), (CHR ''8'', 8), (CHR ''9'', 9)] c"

fun decimal :: "nat \<Rightarrow> string \<Rightarrow> nat option" where
  "decimal acc [] = Some acc"
| "decimal acc (c # cs) =
     (case digit c of None \<Rightarrow> None | Some d \<Rightarrow> decimal (10 * acc + d) cs)"

definition pool_count :: "jsval \<Rightarrow> nat option" where
  "pool_count v =
     (case v of
        Undefined \<Rightarrow> None
      | Num n \<Rightarrow> Some n
      | Str s \<Rightarrow> if s = [] then None else decimal 0 s)"

text \<open>
  The work distributor \<^verbatim>\<open>divideWork\<close> of \<^verbatim>\<open>./dist\<close> is a parameter; it returns fresh
  copies of the script, so overwriting their \<^verbatim>\<open>statsInterval\<close> leaves the runner's own script
  alone. \<open>fork i\<close> is the process id of the \<open>i\<close>-th process forked by this call. The
  run command sent to a worker is kept in its process; \<^verbatim>\<open>setInterval\<close> appends the period
  in milliseconds to the timers.
\<close>

definition spawn :: "(nat \<Rightarrow> nat) \<Rightarrow> 'a runner \<Rightarrow> nat \<times> script \<Rightarrow> 'a runner" where
  "spawn fork st js =
     (let workerProcess = \<lparr>proc_pid = fork (fst js), killed = False, sent = [snd js]\<rparr>
      in st\<lparr>workers :=
               obj_set (proc_pid workerProcess) \<lparr>proc = workerProcess, isDone = False\<rparr>
                 (workers st)\<rparr>)"

definition run ::
  "string option \<Rightarrow> nat \<Rightarrow> (script \<Rightarrow> jsval \<Rightarrow> script list) \<Rightarrow> (nat \<Rightarrow> nat) \<Rightarrow> 'a runner
     \<Rightarrow> 'a runner" where
  "run env cpus divideWork fork st =
     (let workerScripts = divideWork (script_of st) (numWorkers env cpus);
          workerScripts = map (\<lambda>s. s\<lparr>statsInterval := 1\<rparr>) workerScripts;
          st' = foldl (spawn fork) st (enumerate 0 workerScripts)
      in st'\<lparr>timers := timers st' @ [statsInterval (script_of st) * 1000]\<rparr>)"

text \<open>The state after the first two statements of the \<^verbatim>\<open>done\<close> branch, for worker \<open>w\<close>.\<close>

definition markDone :: "'a runner \<Rightarrow> nat \<Rightarrow> worker \<Rightarrow> 'a runner" where
  "markDone st p w =
     st\<lparr>workers := obj_set p (w\<lparr>isDone := True, proc := (proc w)\<lparr>killed := True\<rparr>\<rparr>) (workers st)\<rparr>"

text \<open>Worker \<open>p\<close> is registered and has reported \<^verbatim>\<open>done\<close>.\<close>

definition reported :: "'a runner \<Rightarrow> nat \<Rightarrow> bool" where
  "reported st p = (case obj_get (workers st) p of Some w \<Rightarrow> isDone w | None \<Rightarrow> False)"

text \<open>The number of entries of a workers object that are not done.\<close>

definition notDone :: "worker obj \<Rightarrow> nat" where
  "notDone kvs = length (filter (\<lambda>kv. \<not> isDone (snd kv)) kvs)"

section \<open>The event loop\<close>

text \<open>
  The runner is single-threaded: worker messages and firings of the flush timer are handled
  one at a time, in some interleaving. An uncaught exception ends the process.
\<close>

datatype 'a input = Message "'a message" | Tick

definition step ::
  "(rat \<Rightarrow> nat \<Rightarrow> rat) \<Rightarrow> ('a snapshot list \<Rightarrow> 'a snapshot) \<Rightarrow> 'a runner \<Rightarrow> 'a input
     \<Rightarrow> error + ('a runner \<times> 'a emitted list)" where
  "step rnd combine st i =
     (case i of
        Message m \<Rightarrow> onWorkerMessage rnd combine st m
      | Tick \<Rightarrow> Inr (sendStats rnd combine st))"

fun deliver ::
  "(rat \<Rightarrow> nat \<Rightarrow> rat) \<Rightarrow> ('a snapshot list \<Rightarrow> 'a snapshot) \<Rightarrow> 'a runner \<Rightarrow> 'a input list
     \<Rightarrow> error + ('a runner \<times> 'a emitted list)" where
  "deliver rnd combine st [] = Inr (st, [])"
| "deliver rnd combine st (i # ins) =
     (case step rnd combine st i of
        Inl e \<Rightarrow> Inl e
      | Inr (st', evs) \<Rightarrow>
          (case deliver rnd combine st' ins of
             Inl e \<Rightarrow> Inl e
           | Inr (st'', evs') \<Rightarrow> Inr (st'', evs @ evs')))"

text \<open>What a sequence of inputs carries, and what a sequence of events shows.\<close>

fun received :: "'a input list \<Rightarrow> (nat \<times> 'a snapshot) list" where
  "received [] = []"
| "received (Message m # ins) =
     (if event m = ''stats'' then (pid m, stats m) # received ins else received ins)"
| "received (Tick # ins) = received ins"

fun done_pids :: "'a input list \<Rightarrow> nat list" where
  "done_pids [] = []"
| "done_pids (Message m # ins) =
     (if event m = ''done'' then pid m # done_pids ins else done_pids ins)"
| "done_pids (Tick # ins) = done_pids ins"

fun phaseIndices :: "'a emitted list \<Rightarrow> int list" where
  "phaseIndices [] = []"
| "phaseIndices (PhaseStartedEv ph # evs) = index ph # phaseIndices evs"
| "phaseIndices (e # evs) = phaseIndices evs"

fun is_stats :: "'a emitted \<Rightarrow> bool" where
  "is_stats (StatsEv r) = True"
| "is_stats e = False"

fun is_done :: "'a emitted \<Rightarrow> bool" where
  "is_done (DoneEv r) = True"
| "is_done e = False"

definition doneCount :: "'a emitted list \<Rightarrow> nat" where
  "doneCount evs = length (filter is_done evs)"

text \<open>
  Every registered worker has reported \<^verbatim>\<open>done\<close>, in the state or through a \<^verbatim>\<open>done\<close>
  message of the inputs; and input \<open>k\<close> is a \<^verbatim>\<open>done\<close> message with which, counting it, every
  registered worker has reported.
\<close>

definition all_reported :: "'a runner \<Rightarrow> 'a input list \<Rightarrow> bool" where
  "all_reported st ins =
     (\<forall>p\<in>set (obj_keys (workers st)). reported st p \<or> p \<in> set (done_pids ins))"

definition completing :: "'a runner \<Rightarrow> 'a input list \<Rightarrow> nat \<Rightarrow> bool" where
  "completing st ins k = (done_pids [ins ! k] \<noteq> [] \<and> all_reported st (take (Suc k) ins))"

text \<open>
  Every \<^verbatim>\<open>done\<close> event of the list comes directly after a \<^verbatim>\<open>stats\<close> event; \<open>prev\<close>
  tells whether the event before the list is a \<^verbatim>\<open>stats\<close> event.
\<close>

fun done_follows_stats :: "bool \<Rightarrow> 'a emitted list \<Rightarrow> bool" where
  "done_follows_stats prev [] = True"
| "done_follows_stats prev (e # evs) =
     ((if is_done e then prev else True) \<and> done_follows_stats (is_stats e) evs)"

definition flush_before_done :: "'a emitted list \<Rightarrow> bool" where
  "flush_before_done evs = done_follows_stats False evs"

section \<open>The specification's aggregate concurrency\<close>

text \<open>
  The largest concurrency among the buffered snapshots of one worker, and the sum of these
  maxima over the workers that have a snapshot in the buffer.
\<close>

definition worker_max :: "(nat \<times> 'a snapshot) list \<Rightarrow> nat \<Rightarrow> rat" where
  "worker_max buf p = Max (set (map (concurrency \<circ> snd) (filter (\<lambda>e. fst e = p) buf)))"

definition aggregate_concurrency :: "(nat \<times> 'a snapshot) list \<Rightarrow> rat" where
  "aggregate_concurrency buf = (\<Sum>p\<in>set (map fst buf). worker_max buf p)"

text \<open>
  Modelled from the spec: \<^verbatim>\<open>stats.round\<close> of artillery-core, which is not part of the
  sources; the spec has it round a value to the given number of decimal places. Halves
  round up.
\<close>

definition stats_round :: "rat \<Rightarrow> nat \<Rightarrow> rat" where
  "stats_round v d = of_int \<lfloor>v * 10 ^ d + 1 / 2\<rfloor> / 10 ^ d"

text \<open>
  Modelled from the spec: the work distributor \<^verbatim>\<open>divideWork\<close> of \<^verbatim>\<open>./dist\<close>, which is not
  part of the sources; the spec has it map a script and a worker count to the list of
  per-worker scripts, one for each worker. Only the number of scripts matters to the
  runner, so every worker gets the script as it is.
\<close>

definition divideWork_spec :: "script \<Rightarrow> jsval \<Rightarrow> script list" where
  "divideWork_spec s v = (case pool_count v of None \<Rightarrow> [] | Some n \<Rightarrow> replicate n s)"

section \<open>Example data\<close>

text \<open>
  A script, snapshots that carry a marker, a combine that adds the gauges and collects the
  markers, the messages of the worker protocol, and running states.
\<close>

definition script0 :: script where
  "script0 = \<lparr>statsInterval = 10, plan = ''plan''\<rparr>"

definition marked :: "rat \<Rightarrow> nat \<Rightarrow> nat list snapshot" where
  "marked c k = \<lparr>concurrency = c, measurements = [k]\<rparr>"

definition merge_marks :: "nat list snapshot list \<Rightarrow> nat list snapshot" where
  "merge_marks xs =
     \<lparr>concurrency = sum_list (map concurrency xs), measurements = concat (map measurements xs)\<rparr>"

definition phaseStartedMsg :: "int \<Rightarrow> nat list message" where
  "phaseStartedMsg k =
     \<lparr>event = ''phaseStarted'', phase = \<lparr>index = k, info = ''''\<rparr>, pid = 0, stats = marked 0 0\<rparr>"

definition statsMsg :: "nat \<Rightarrow> nat list snapshot \<Rightarrow> nat list message" where
  "statsMsg p s =
     \<lparr>event = ''stats'', phase = \<lparr>index = 0, info = ''''\<rparr>, pid = p, stats = s\<rparr>"

definition doneMsg :: "nat \<Rightarrow> nat list message" where
  "doneMsg p =
     \<lparr>event = ''done'', phase = \<lparr>index = 0, info = ''''\<rparr>, pid = p, stats = marked 0 0\<rparr>"

definition worker0 :: "nat \<Rightarrow> bool \<Rightarrow> worker" where
  "worker0 p d =
     \<lparr>proc = \<lparr>proc_pid = p, killed = d, sent = [script0\<lparr>statsInterval := 1\<rparr>]\<rparr>, isDone = d\<rparr>"

definition running :: "worker obj \<Rightarrow> nat list runner" where
  "running ws = (Runner script0)\<lparr>workers := ws, timers := [10000]\<rparr>"

section \<open>The message handler: frame and faults\<close>

text \<open>
  C7. A \<^verbatim>\<open>phaseCompleted\<close> message, and any message whose event kind is none of
  \<^verbatim>\<open>phaseStarted\<close>, \<^verbatim>\<open>stats\<close>, \<^verbatim>\<open>done\<close>, leaves the whole run state as it was and emits
  nothing.
\<close>

theorem onWorkerMessage_ignored:
  assumes "event m = ''phaseCompleted'' \<or>
           event m \<notin> {''phaseStarted'', ''phaseCompleted'', ''stats'', ''done''}"
  shows "onWorkerMessage rnd combine st m = Inr (st, [])"
  using assms by (auto simp: onWorkerMessage_def)

theorem onWorkerMessage_ignored_witness:
  "onWorkerMessage (\<lambda>v d. v) (\<lambda>xs. \<lparr>concurrency = 0, measurements = ()\<rparr>)
     (Runner \<lparr>statsInterval = 10, plan = ''p''\<rparr>)
     \<lparr>event = ''phaseCompleted'', phase = \<lparr>index = 0, info = ''''\<rparr>, pid = 7,
      stats = \<lparr>concurrency = 3, measurements = ()\<rparr>\<rparr>
   = Inr (Runner \<lparr>statsInterval = 10, plan = ''p''\<rparr>, [])
   \<and> onWorkerMessage (\<lambda>v d. v) (\<lambda>xs. \<lparr>concurrency = 0, measurements = ()\<rparr>)
     (Runner \<lparr>statsInterval = 10, plan = ''p''\<rparr>)
     \<lparr>event = ''heartbeat'', phase = \<lparr>index = 0, info = ''''\<rparr>, pid = 7,
      stats = \<lparr>concurrency = 3, measurements = ()\<rparr>\<rparr>
   = Inr (Runner \<lparr>statsInterval = 10, plan = ''p''\<rparr>, [])"
  using onWorkerMessage_ignored [of "\<lparr>event = ''phaseCompleted'', phase = \<lparr>index = 0, info = ''''\<rparr>, pid = 7,
      stats = \<lparr>concurrency = 3, measurements = ()\<rparr>\<rparr>" "\<lambda>v d. v" "\<lambda>xs. \<lparr>concurrency = 0, measurements = ()\<rparr>"
      "Runner \<lparr>statsInterval = 10, plan = ''p''\<rparr>"]
    onWorkerMessage_ignored [of "\<lparr>event = ''heartbeat'', phase = \<lparr>index = 0, info = ''''\<rparr>, pid = 7,
      stats = \<lparr>concurrency = 3, measurements = ()\<rparr>\<rparr>" "\<lambda>v d. v" "\<lambda>xs. \<lparr>concurrency = 0, measurements = ()\<rparr>"
      "Runner \<lparr>statsInterval = 10, plan = ''p''\<rparr>"]
  by simp

text \<open>
  C9. A \<^verbatim>\<open>done\<close> message whose pid is not a key of the workers map makes the handler
  throw: it returns no state and no event.
\<close>

theorem onWorkerMessage_done_unknown_pid:
  assumes "event m = ''done''" and "obj_get (workers st) (pid m) = None"
  shows "onWorkerMessage rnd combine st m = Inl TypeError"
  using assms by (simp add: onWorkerMessage_def)

theorem onWorkerMessage_done_unknown_pid_witness:
  "onWorkerMessage (\<lambda>v d. v) (\<lambda>xs. \<lparr>concurrency = 0, measurements = ()\<rparr>)
     ((Runner \<lparr>statsInterval = 10, plan = ''p''\<rparr>)
        \<lparr>workers := [(4, \<lparr>proc = \<lparr>proc_pid = 4, killed = False, sent = []\<rparr>, isDone = False\<rparr>)]\<rparr>)
     \<lparr>event = ''done'', phase = \<lparr>index = 0, info = ''''\<rparr>, pid = 7,
      stats = \<lparr>concurrency = 3, measurements = ()\<rparr>\<rparr>
   = Inl TypeError"
  using onWorkerMessage_done_unknown_pid [of
      "\<lparr>event = ''done'', phase = \<lparr>index = 0, info = ''''\<rparr>, pid = 7,
        stats = \<lparr>concurrency = 3, measurements = ()\<rparr>\<rparr>"
      "(Runner \<lparr>statsInterval = 10, plan = ''p''\<rparr>)
        \<lparr>workers := [(4, \<lparr>proc = \<lparr>proc_pid = 4, killed = False, sent = []\<rparr>, isDone = False\<rparr>)]\<rparr>"
      "\<lambda>v d. v" "\<lambda>xs. \<lparr>concurrency = 0, measurements = ()\<rparr>"]
  by (simp add: obj_get_def Runner_def)

section \<open>Objects keyed by process id\<close>

lemma map_of_obj_set: "map_of (obj_set k v kvs) = (map_of kvs)(k \<mapsto> v)"
  by (induction kvs) (auto simp: fun_eq_iff)

lemma obj_get_obj_set: "obj_get (obj_set k v kvs) k' = (if k' = k then Some v else obj_get kvs k')"
  by (simp add: obj_get_def map_of_obj_set)

lemma keys_obj_set: "set (obj_keys (obj_set k v kvs)) = insert k (set (obj_keys kvs))"
  by (induction kvs) (force simp: obj_keys_def)+

lemma sorted_obj_set:
  "sorted_wrt (<) (obj_keys kvs) \<Longrightarrow> sorted_wrt (<) (obj_keys (obj_set k v kvs))"
proof (induction kvs)
  case Nil
  then show ?case by (simp add: obj_keys_def)
next
  case (Cons a kvs)
  obtain k' v' where a: "a = (k', v')" by (cases a)
  have ks: "set (map fst (obj_set k v kvs)) = insert k (set (map fst kvs))"
    using keys_obj_set [of k v kvs] by (simp add: obj_keys_def)
  show ?case using Cons a ks by (auto simp: obj_keys_def)
qed

lemma sum_list_obj_values:
  "distinct (obj_keys kvs) \<Longrightarrow>
   sum_list (obj_values kvs) = (\<Sum>k\<in>set (obj_keys kvs). the (obj_get kvs k))"
proof (induction kvs)
  case Nil
  then show ?case by (simp add: obj_keys_def obj_values_def)
next
  case (Cons a kvs)
  obtain k v where a: "a = (k, v)" by (cases a)
  from Cons.prems a have nk: "k \<notin> set (map fst kvs)" and d: "distinct (map fst kvs)"
    by (simp_all add: obj_keys_def)
  have "(\<Sum>x\<in>set (map fst kvs). the (map_of ((k, v) # kvs) x))
      = (\<Sum>x\<in>set (map fst kvs). the (map_of kvs x))"
    using nk by (intro sum.cong) auto
  then show ?case using Cons.IH d nk a
    by (simp add: obj_keys_def obj_values_def obj_get_def)
qed

lemma sorted_maxWorkerConcurrencies:
  "sorted_wrt (<) (obj_keys (maxWorkerConcurrencies buf))"
  unfolding maxWorkerConcurrencies_def
  by (induction buf rule: rev_induct)
     (auto simp: obj_keys_def maxConcurrencyOf_def Let_def
           intro: sorted_obj_set [unfolded obj_keys_def] split: option.splits)

lemma worker_max_snoc_other:
  "p \<noteq> fst x \<Longrightarrow> worker_max (xs @ [x]) p = worker_max xs p"
  by (simp add: worker_max_def)

lemma worker_max_snoc_new:
  "fst x \<notin> fst ` set xs \<Longrightarrow> worker_max (xs @ [x]) (fst x) = concurrency (snd x)"
proof -
  assume "fst x \<notin> fst ` set xs"
  then have "\<forall>e\<in>set xs. fst e \<noteq> fst x"
    by (metis imageI)
  then have "filter (\<lambda>e. fst e = fst x) xs = []"
    by simp
  then show ?thesis by (simp add: worker_max_def)
qed

lemma worker_max_snoc_old:
  assumes "fst x \<in> fst ` set xs"
  shows "worker_max (xs @ [x]) (fst x) = max (worker_max xs (fst x)) (concurrency (snd x))"
proof -
  let ?S = "set (map (concurrency \<circ> snd) (filter (\<lambda>e. fst e = fst x) xs))"
  from assms have ne: "?S \<noteq> {}" by (auto simp: filter_empty_conv)
  have "worker_max (xs @ [x]) (fst x) = Max (insert (concurrency (snd x)) ?S)"
    by (simp add: worker_max_def)
  also have "\<dots> = max (concurrency (snd x)) (Max ?S)"
    using ne by (intro Max_insert) auto
  finally show ?thesis by (simp add: worker_max_def max.commute)
qed

lemma obj_get_maxWorkerConcurrencies:
  "obj_get (maxWorkerConcurrencies buf) p =
     (if p \<in> fst ` set buf then Some (worker_max buf p) else None)"
proof (induction buf arbitrary: p rule: rev_induct)
  case Nil
  then show ?case by (simp add: maxWorkerConcurrencies_def obj_get_def)
next
  case (snoc x xs)
  have step: "maxWorkerConcurrencies (xs @ [x]) =
     (case obj_get (maxWorkerConcurrencies xs) (fst x) of
        Some v \<Rightarrow> obj_set (fst x) (max v (concurrency (snd x))) (maxWorkerConcurrencies xs)
      | None \<Rightarrow> obj_set (fst x) (concurrency (snd x)) (maxWorkerConcurrencies xs))"
    by (simp add: maxWorkerConcurrencies_def maxConcurrencyOf_def Let_def split: option.splits)
  show ?case
  proof (cases "p = fst x")
    case True
    show ?thesis
    proof (cases "fst x \<in> fst ` set xs")
      case True
      with snoc [of "fst x"] \<open>p = fst x\<close> show ?thesis
        by (simp add: step obj_get_obj_set worker_max_snoc_old)
    next
      case False
      with snoc [of "fst x"] \<open>p = fst x\<close> show ?thesis
        by (simp add: step obj_get_obj_set worker_max_snoc_new)
    qed
  next
    case False
    with snoc [of p] show ?thesis
      by (auto simp: step obj_get_obj_set worker_max_snoc_other split: option.splits)
  qed
qed

lemma keys_maxWorkerConcurrencies:
  "set (obj_keys (maxWorkerConcurrencies buf)) = fst ` set buf"
proof -
  have "set (obj_keys kvs) = {k. obj_get kvs k \<noteq> None}" for kvs :: "rat obj"
    by (auto simp: obj_keys_def obj_get_def map_of_eq_None_iff)
  then show ?thesis by (auto simp: obj_get_maxWorkerConcurrencies)
qed

lemma sum_maxWorkerConcurrencies:
  "sum_list (obj_values (maxWorkerConcurrencies buf)) = aggregate_concurrency buf"
proof -
  have d: "distinct (obj_keys (maxWorkerConcurrencies buf))"
    using sorted_maxWorkerConcurrencies [of buf] strict_sorted_iff by blast
  show ?thesis
    unfolding sum_list_obj_values [OF d] aggregate_concurrency_def keys_maxWorkerConcurrencies
    by (intro sum.cong) (auto simp: obj_get_maxWorkerConcurrencies)
qed

section \<open>The periodic flush\<close>

text \<open>
  C1. The flush emits one \<^verbatim>\<open>stats\<close> event. Its report is the combine of the buffered
  snapshots with the concurrency field overwritten by \<open>rnd\<close> (to one decimal place) of the
  sum, over the workers in the buffer, of the largest concurrency each worker reported.
\<close>

theorem sendStats_concurrency:
  "snd (sendStats rnd combine st) =
     [StatsEv ((combine (map snd (intermediates st)))
        \<lparr>concurrency := rnd (aggregate_concurrency (intermediates st)) 1\<rparr>)]"
  by (simp add: sendStats_def Let_def sum_maxWorkerConcurrencies)

text \<open>
  The example of the specification: worker 11 reports 3, 5, 2 and worker 22 reports 4, 4,
  interleaved, within one interval; the aggregate is 9.
\<close>

theorem sendStats_concurrency_witness:
  "snd (sendStats stats_round (\<lambda>xs. \<lparr>concurrency = 0, measurements = ()\<rparr>)
     ((Runner \<lparr>statsInterval = 10, plan = ''p''\<rparr>)
        \<lparr>intermediates :=
           [(11, \<lparr>concurrency = 3, measurements = ()\<rparr>),
            (22, \<lparr>concurrency = 4, measurements = ()\<rparr>),
            (11, \<lparr>concurrency = 5, measurements = ()\<rparr>),
            (22, \<lparr>concurrency = 4, measurements = ()\<rparr>),
            (11, \<lparr>concurrency = 2, measurements = ()\<rparr>)]\<rparr>))
   = [StatsEv \<lparr>concurrency = 9, measurements = ()\<rparr>]"
proof -
  have agg: "aggregate_concurrency
       [(11, \<lparr>concurrency = 3, measurements = ()\<rparr>),
        (22, \<lparr>concurrency = 4, measurements = ()\<rparr>),
        (11, \<lparr>concurrency = 5, measurements = ()\<rparr>),
        (22, \<lparr>concurrency = 4, measurements = ()\<rparr>),
        (11, \<lparr>concurrency = 2, measurements = ()\<rparr>)] = 9"
    by code_simp
  have r: "stats_round 9 (Suc 0) = 9"
    by code_simp
  show ?thesis
    using sendStats_concurrency [of stats_round "\<lambda>xs. \<lparr>concurrency = 0, measurements = ()\<rparr>"
        "(Runner \<lparr>statsInterval = 10, plan = ''p''\<rparr>)
          \<lparr>intermediates :=
             [(11, \<lparr>concurrency = 3, measurements = ()\<rparr>),
              (22, \<lparr>concurrency = 4, measurements = ()\<rparr>),
              (11, \<lparr>concurrency = 5, measurements = ()\<rparr>),
              (22, \<lparr>concurrency = 4, measurements = ()\<rparr>),
              (11, \<lparr>concurrency = 2, measurements = ()\<rparr>)]\<rparr>"]
    by (simp add: agg r)
qed

text \<open>
  C10. With nothing buffered the flush still emits a \<^verbatim>\<open>stats\<close> event: the combine of the
  empty collection with its concurrency set to the rounding of 0, which is 0; the state,
  and so the empty buffer, stays as it was.
\<close>

theorem sendStats_empty_buffer:
  assumes "intermediates st = []"
  shows "sendStats rnd combine st = (st, [StatsEv ((combine [])\<lparr>concurrency := rnd 0 1\<rparr>)])
         \<and> stats_round 0 1 = 0"
proof -
  have "stats_round 0 1 = 0"
    by code_simp
  moreover have "st\<lparr>intermediates := []\<rparr> = st"
    using assms by simp
  ultimately show ?thesis
    using assms
    by (simp add: sendStats_def Let_def maxWorkerConcurrencies_def obj_values_def)
qed

theorem sendStats_empty_buffer_witness:
  "sendStats stats_round (\<lambda>xs. \<lparr>concurrency = 5, measurements = length xs\<rparr>)
     (Runner \<lparr>statsInterval = 10, plan = ''p''\<rparr>)
   = (Runner \<lparr>statsInterval = 10, plan = ''p''\<rparr>,
      [StatsEv \<lparr>concurrency = 0, measurements = 0\<rparr>])"
proof -
  have e: "intermediates (Runner \<lparr>statsInterval = 10, plan = ''p''\<rparr> :: nat runner) = []"
    by (simp add: Runner_def)
  show ?thesis
    using sendStats_empty_buffer [OF e, of stats_round
        "\<lambda>xs. \<lparr>concurrency = 5, measurements = length xs\<rparr>"]
    by simp
qed

section \<open>The message handler, case by case\<close>

lemma onWorkerMessage_phaseStarted:
  "event m = ''phaseStarted'' \<Longrightarrow>
   onWorkerMessage rnd combine st m =
     (if index (phase m) > currentPhase st
      then Inr (st\<lparr>currentPhase := index (phase m)\<rparr>, [PhaseStartedEv (phase m)])
      else Inr (st, []))"
  by (simp add: onWorkerMessage_def)

lemma onWorkerMessage_stats:
  "event m = ''stats'' \<Longrightarrow>
   onWorkerMessage rnd combine st m =
     Inr (st\<lparr>intermediates := intermediates st @ [(pid m, stats m)],
             allIntermediates := allIntermediates st @ [stats m]\<rparr>, [])"
  by (simp add: onWorkerMessage_def)

lemma onWorkerMessage_done:
  "event m = ''done'' \<Longrightarrow>
   onWorkerMessage rnd combine st m =
     (case obj_get (workers st) (pid m) of
        None \<Rightarrow> Inl TypeError
      | Some w \<Rightarrow>
          if activeWorkerCount (markDone st (pid m) w) = 0
          then Inr ((markDone st (pid m) w)\<lparr>intermediates := []\<rparr>,
                    snd (sendStats rnd combine st) @ [DoneEv (combine (allIntermediates st))])
          else Inr (markDone st (pid m) w, []))"
  by (simp add: onWorkerMessage_def markDone_def sendStats_def Let_def split: option.splits)

lemma onWorkerMessage_other:
  "event m \<noteq> ''phaseStarted'' \<Longrightarrow> event m \<noteq> ''stats'' \<Longrightarrow> event m \<noteq> ''done'' \<Longrightarrow>
   onWorkerMessage rnd combine st m = Inr (st, [])"
  by (simp add: onWorkerMessage_def)

lemma sendStats_eq:
  "sendStats rnd combine st =
     (st\<lparr>intermediates := []\<rparr>,
      [StatsEv ((combine (map snd (intermediates st)))
         \<lparr>concurrency := rnd (aggregate_concurrency (intermediates st)) 1\<rparr>)])"
  by (simp add: sendStats_def Let_def sum_maxWorkerConcurrencies)

section \<open>Traces\<close>

lemma phaseIndices_append: "phaseIndices (xs @ ys) = phaseIndices xs @ phaseIndices ys"
  by (induction xs rule: phaseIndices.induct) simp_all

lemma step_phase:
  assumes "step rnd combine st i = Inr (st', evs)"
  shows "(phaseIndices evs = [] \<and> currentPhase st' = currentPhase st) \<or>
         (phaseIndices evs = [currentPhase st'] \<and> currentPhase st < currentPhase st')"
proof (cases i)
  case Tick
  with assms show ?thesis by (auto simp: step_def sendStats_eq)
next
  case (Message m)
  consider "event m = ''phaseStarted''" | "event m = ''stats''" | "event m = ''done''"
    | "event m \<noteq> ''phaseStarted''" "event m \<noteq> ''stats''" "event m \<noteq> ''done''"
    by blast
  then show ?thesis
  proof cases
    case 1
    with assms Message show ?thesis
      by (auto simp: step_def onWorkerMessage_phaseStarted split: if_splits)
  next
    case 2
    with assms Message show ?thesis
      by (auto simp: step_def onWorkerMessage_stats)
  next
    case 3
    with assms Message show ?thesis
      by (auto simp: step_def onWorkerMessage_done sendStats_eq markDone_def
               split: option.splits if_splits)
  next
    case 4
    with assms Message show ?thesis
      by (auto simp: step_def onWorkerMessage_other)
  qed
qed

lemma deliver_phase:
  "deliver rnd combine st ins = Inr (st', evs) \<Longrightarrow>
   sorted_wrt (<) (currentPhase st # phaseIndices evs) \<and>
   currentPhase st' = last (currentPhase st # phaseIndices evs)"
proof (induction ins arbitrary: st st' evs)
  case Nil
  then show ?case by simp
next
  case (Cons i ins)
  from Cons.prems obtain st1 evs1 st2 evs2 where
    s: "step rnd combine st i = Inr (st1, evs1)" and
    d: "deliver rnd combine st1 ins = Inr (st2, evs2)" and
    e: "st' = st2" "evs = evs1 @ evs2"
    by (auto split: sum.splits prod.splits)
  from Cons.IH [OF d] have ih: "sorted_wrt (<) (currentPhase st1 # phaseIndices evs2)"
    "currentPhase st2 = last (currentPhase st1 # phaseIndices evs2)" by simp_all
  from step_phase [OF s] show ?case
  proof
    assume "phaseIndices evs1 = [] \<and> currentPhase st1 = currentPhase st"
    with ih e show ?thesis by (simp add: phaseIndices_append)
  next
    assume a: "phaseIndices evs1 = [currentPhase st1] \<and> currentPhase st < currentPhase st1"
    have "\<forall>x\<in>set (phaseIndices evs2). currentPhase st < x"
      using ih(1) a by auto
    with ih e a show ?thesis by (simp add: phaseIndices_append)
  qed
qed


lemma sorted_wrt_less_last:
  assumes "sorted_wrt (<) (x # xs)"
  shows "(x::int) \<le> last (x # xs)"
proof (cases xs)
  case Nil
  then show ?thesis by simp
next
  case (Cons y ys)
  then have "last (x # xs) \<in> set xs" by simp
  with assms show ?thesis by auto
qed

lemma deliver_Cons_Inr:
  assumes "deliver rnd combine st (i # ins) = Inr (st', evs)"
  obtains st1 evs1 evs2 where "step rnd combine st i = Inr (st1, evs1)"
    and "deliver rnd combine st1 ins = Inr (st', evs2)" and "evs = evs1 @ evs2"
  using assms by (auto split: sum.splits prod.splits)

lemma step_allIntermediates:
  assumes "step rnd combine st i = Inr (st', evs)"
  shows "allIntermediates st' = allIntermediates st @ map snd (received [i])"
proof (cases i)
  case Tick
  with assms show ?thesis by (auto simp: step_def sendStats_eq)
next
  case (Message m)
  consider "event m = ''phaseStarted''" | "event m = ''stats''" | "event m = ''done''"
    | "event m \<noteq> ''phaseStarted''" "event m \<noteq> ''stats''" "event m \<noteq> ''done''"
    by blast
  then show ?thesis
  proof cases
    case 1
    with assms Message show ?thesis
      by (auto simp: step_def onWorkerMessage_phaseStarted split: if_splits)
  next
    case 2
    with assms Message show ?thesis
      by (auto simp: step_def onWorkerMessage_stats)
  next
    case 3
    with assms Message show ?thesis
      by (auto simp: step_def onWorkerMessage_done markDone_def split: option.splits if_splits)
  next
    case 4
    with assms Message show ?thesis
      by (auto simp: step_def onWorkerMessage_other)
  qed
qed

lemma received_append: "received (xs @ ys) = received xs @ received ys"
  by (induction xs rule: received.induct) simp_all

lemma deliver_allIntermediates:
  "deliver rnd combine st ins = Inr (st', evs) \<Longrightarrow>
   allIntermediates st' = allIntermediates st @ map snd (received ins)"
proof (induction ins arbitrary: st evs)
  case Nil
  then show ?case by simp
next
  case (Cons i ins)
  from Cons.prems obtain st1 evs1 evs2 where
    s: "step rnd combine st i = Inr (st1, evs1)" and
    d: "deliver rnd combine st1 ins = Inr (st', evs2)"
    by (rule deliver_Cons_Inr)
  have "received (i # ins) = received [i] @ received ins"
    using received_append [of "[i]" ins] by simp
  with step_allIntermediates [OF s] Cons.IH [OF d] show ?case by simp
qed

lemma onWorkerMessage_done_report:
  assumes "onWorkerMessage rnd combine st m = Inr (st', evs)" and "DoneEv r \<in> set evs"
  shows "r = combine (allIntermediates st)"
proof -
  consider "event m = ''phaseStarted''" | "event m = ''stats''" | "event m = ''done''"
    | "event m \<noteq> ''phaseStarted''" "event m \<noteq> ''stats''" "event m \<noteq> ''done''"
    by blast
  then show ?thesis
  proof cases
    case 1
    with assms show ?thesis
      by (auto simp: onWorkerMessage_phaseStarted split: if_splits)
  next
    case 2
    with assms show ?thesis
      by (auto simp: onWorkerMessage_stats)
  next
    case 3
    with assms show ?thesis
      by (auto simp: onWorkerMessage_done sendStats_eq split: option.splits if_splits)
  next
    case 4
    with assms show ?thesis
      by (auto simp: onWorkerMessage_other)
  qed
qed

text \<open>
  C4. The payload of a \<^verbatim>\<open>done\<close> event is the combine of the whole history: the snapshots
  the run started with followed by every snapshot received in a \<^verbatim>\<open>stats\<close> message since,
  whether or not a flush has drained it from the pending buffer in the meantime.
\<close>

theorem done_report_full_history:
  assumes "deliver rnd combine st ins = Inr (st1, evs1)"
    and "onWorkerMessage rnd combine st1 m = Inr (st2, evs2)"
    and "DoneEv r \<in> set evs2"
  shows "r = combine (allIntermediates st @ map snd (received ins))"
  using onWorkerMessage_done_report [OF assms(2,3)] deliver_allIntermediates [OF assms(1)]
  by simp

lemma step_intermediates:
  assumes "step rnd combine st i = Inr (st', evs)"
  shows "if \<exists>e\<in>set evs. is_stats e then intermediates st' = []
         else intermediates st' = intermediates st @ received [i]"
proof (cases i)
  case Tick
  with assms show ?thesis by (auto simp: step_def sendStats_eq)
next
  case (Message m)
  consider "event m = ''phaseStarted''" | "event m = ''stats''" | "event m = ''done''"
    | "event m \<noteq> ''phaseStarted''" "event m \<noteq> ''stats''" "event m \<noteq> ''done''"
    by blast
  then show ?thesis
  proof cases
    case 1
    with assms Message show ?thesis
      by (auto simp: step_def onWorkerMessage_phaseStarted split: if_splits)
  next
    case 2
    with assms Message show ?thesis
      by (auto simp: step_def onWorkerMessage_stats)
  next
    case 3
    with assms Message show ?thesis
      by (auto simp: step_def onWorkerMessage_done markDone_def sendStats_eq
               split: option.splits if_splits)
  next
    case 4
    with assms Message show ?thesis
      by (auto simp: step_def onWorkerMessage_other)
  qed
qed

lemma deliver_intermediates:
  "deliver rnd combine st ins = Inr (st', evs) \<Longrightarrow> \<forall>e\<in>set evs. \<not> is_stats e \<Longrightarrow>
   intermediates st' = intermediates st @ received ins"
proof (induction ins arbitrary: st evs)
  case Nil
  then show ?case by simp
next
  case (Cons i ins)
  from Cons.prems(1) obtain st1 evs1 evs2 where
    s: "step rnd combine st i = Inr (st1, evs1)" and
    d: "deliver rnd combine st1 ins = Inr (st', evs2)" and e: "evs = evs1 @ evs2"
    by (rule deliver_Cons_Inr)
  from Cons.prems(2) e have n1: "\<not> (\<exists>e\<in>set evs1. is_stats e)" and n2: "\<forall>e\<in>set evs2. \<not> is_stats e"
    by auto
  have "received (i # ins) = received [i] @ received ins"
    using received_append [of "[i]" ins] by simp
  with step_intermediates [OF s] n1 Cons.IH [OF d n2] show ?case by simp
qed

text \<open>
  C5. After a step that flushes (a timer firing or the final flush) the pending buffer is
  empty. The snapshots received from then on, up to the next flush, are exactly the
  contents of the buffer, so the next flush reports them and no others, and empties the
  buffer again.
\<close>

theorem flush_clears_buffer:
  assumes "step rnd combine st0 i0 = Inr (st, evs0)" and "\<exists>e\<in>set evs0. is_stats e"
    and "deliver rnd combine st ins = Inr (st', evs)" and "\<forall>e\<in>set evs. \<not> is_stats e"
  shows "intermediates (fst (sendStats rnd combine st0)) = [] \<and>
         intermediates st = [] \<and>
         intermediates st' = received ins \<and>
         sendStats rnd combine st' =
           (st'\<lparr>intermediates := []\<rparr>,
            [StatsEv ((combine (map snd (received ins)))
               \<lparr>concurrency := rnd (aggregate_concurrency (received ins)) 1\<rparr>)])"
proof -
  have a: "intermediates st = []"
    using step_intermediates [OF assms(1)] assms(2) by simp
  have b: "intermediates st' = received ins"
    using deliver_intermediates [OF assms(3,4)] a by simp
  show ?thesis
    using a b by (simp add: sendStats_eq)
qed

text \<open>
  C3. Over any sequence of inputs the indices of the emitted \<^verbatim>\<open>phaseStarted\<close> events are
  strictly increasing and lie above the phase the sequence started from; the current phase
  never decreases and is the last index emitted; a \<^verbatim>\<open>phaseStarted\<close> message whose index
  is not above the current phase changes nothing and emits nothing.
\<close>

theorem phaseStarted_strictly_increasing:
  assumes "deliver rnd combine st ins = Inr (st', evs)"
  shows "sorted_wrt (<) (currentPhase st # phaseIndices evs) \<and>
         currentPhase st \<le> currentPhase st' \<and>
         currentPhase st' = last (currentPhase st # phaseIndices evs) \<and>
         (\<forall>m. event m = ''phaseStarted'' \<and> index (phase m) \<le> currentPhase st' \<longrightarrow>
              onWorkerMessage rnd combine st' m = Inr (st', []))"
proof -
  from deliver_phase [OF assms] have
    s: "sorted_wrt (<) (currentPhase st # phaseIndices evs)" and
    l: "currentPhase st' = last (currentPhase st # phaseIndices evs)"
    by simp_all
  from sorted_wrt_less_last [OF s] l have "currentPhase st \<le> currentPhase st'"
    by simp
  with s l show ?thesis
    by (simp add: onWorkerMessage_phaseStarted)
qed


section \<open>Counting the active workers\<close>

lemma sorted_keys_distinct: "sorted_wrt (<) (obj_keys kvs) \<Longrightarrow> distinct (obj_keys kvs)"
  using strict_sorted_iff by blast

lemma count_loop:
  assumes "distinct (map fst kvs)" and "set ys \<subseteq> set kvs"
  shows "foldl (\<lambda>count p.
               (case obj_get kvs p of
                  Some w \<Rightarrow> if isDone w then count - 1 else count
                | None \<Rightarrow> count)) c (map fst ys)
         = c - int (length (filter (\<lambda>kv. isDone (snd kv)) ys))"
  using assms(2)
proof (induction ys arbitrary: c)
  case Nil
  then show ?case by simp
next
  case (Cons y ys)
  obtain p w where y: "y = (p, w)" by (cases y)
  with Cons.prems have "(p, w) \<in> set kvs" by simp
  with assms(1) have "obj_get kvs p = Some w" by (simp add: obj_get_def)
  with Cons y show ?case by simp
qed

lemma activeWorkerCount_notDone:
  assumes "sorted_wrt (<) (obj_keys (workers st))"
  shows "activeWorkerCount st = int (notDone (workers st))"
proof -
  have d: "distinct (map fst (workers st))"
    using sorted_keys_distinct [OF assms] by (simp add: obj_keys_def)
  have "length (workers st) =
        length (filter (\<lambda>kv. isDone (snd kv)) (workers st)) + notDone (workers st)"
    unfolding notDone_def using sum_length_filter_compl [of "\<lambda>kv. isDone (snd kv)" "workers st"]
    by simp
  then show ?thesis
    using count_loop [OF d subset_refl, of "int (length (workers st))"]
    by (simp add: activeWorkerCount_def obj_keys_def Let_def)
qed

lemma obj_set_present:
  assumes "sorted_wrt (<) (map fst kvs)" and "map_of kvs p = Some w"
    and "\<not> isDone w" and "isDone w'"
  shows "map fst (obj_set p w' kvs) = map fst kvs \<and> Suc (notDone (obj_set p w' kvs)) = notDone kvs"
  using assms
proof (induction kvs)
  case Nil
  then show ?case by simp
next
  case (Cons a kvs)
  obtain k v where a: "a = (k, v)" by (cases a)
  show ?case
  proof (cases "p = k")
    case True
    with Cons.prems a show ?thesis by (simp add: notDone_def)
  next
    case False
    with Cons.prems a have m: "map_of kvs p = Some w" by simp
    then have "p \<in> set (map fst kvs)" by (metis map_of_eq_None_iff option.distinct(1) set_map)
    with Cons.prems(1) a have "k < p" by auto
    with Cons.IH [OF _ m Cons.prems(3,4)] Cons.prems(1) a False show ?thesis
      by (simp add: notDone_def)
  qed
qed

section \<open>Completion\<close>

lemma done_follows_stats_weaken:
  "done_follows_stats False evs \<Longrightarrow> done_follows_stats b evs"
  by (cases evs) auto

lemma done_follows_stats_append:
  "done_follows_stats b xs \<Longrightarrow> done_follows_stats False ys \<Longrightarrow> done_follows_stats b (xs @ ys)"
  by (induction xs arbitrary: b) (auto intro: done_follows_stats_weaken)

lemma flush_before_done_append:
  "flush_before_done xs \<Longrightarrow> flush_before_done ys \<Longrightarrow> flush_before_done (xs @ ys)"
  unfolding flush_before_done_def by (rule done_follows_stats_append)

lemma doneCount_append: "doneCount (xs @ ys) = doneCount xs + doneCount ys"
  by (simp add: doneCount_def)

lemma step_done:
  assumes "step rnd combine st i = Inr (st', evs)"
    and "sorted_wrt (<) (obj_keys (workers st))"
    and "\<forall>p\<in>set (done_pids [i]). \<not> reported st p"
  shows "sorted_wrt (<) (obj_keys (workers st')) \<and>
         activeWorkerCount st' = activeWorkerCount st - int (length (done_pids [i])) \<and>
         doneCount evs = (if done_pids [i] \<noteq> [] \<and> activeWorkerCount st' = 0 then 1 else 0) \<and>
         flush_before_done evs \<and>
         obj_keys (workers st') = obj_keys (workers st) \<and>
         (\<forall>q. reported st' q = (reported st q \<or> q \<in> set (done_pids [i])))"
proof (cases i)
  case Tick
  with assms show ?thesis
    by (auto simp: step_def sendStats_eq doneCount_def activeWorkerCount_def flush_before_done_def
             reported_def)
next
  case (Message m)
  consider "event m = ''phaseStarted''" | "event m = ''stats''" | "event m = ''done''"
    | "event m \<noteq> ''phaseStarted''" "event m \<noteq> ''stats''" "event m \<noteq> ''done''"
    by blast
  then show ?thesis
  proof cases
    case 1
    with assms Message show ?thesis
      by (auto simp: step_def onWorkerMessage_phaseStarted doneCount_def activeWorkerCount_def
               flush_before_done_def reported_def split: if_splits)
  next
    case 2
    with assms Message show ?thesis
      by (auto simp: step_def onWorkerMessage_stats doneCount_def activeWorkerCount_def
               flush_before_done_def reported_def)
  next
    case 3
    with assms(1) Message obtain w where w: "obj_get (workers st) (pid m) = Some w"
      by (auto simp: step_def onWorkerMessage_done split: option.splits)
    with assms(3) Message 3 have nd: "\<not> isDone w" by (simp add: reported_def)
    let ?w' = "w\<lparr>isDone := True, proc := (proc w)\<lparr>killed := True\<rparr>\<rparr>"
    let ?st3 = "markDone st (pid m) w"
    have ws3: "workers ?st3 = obj_set (pid m) ?w' (workers st)"
      by (simp add: markDone_def)
    from obj_set_present [of "workers st" "pid m" w ?w'] assms(2) w nd
    have k: "map fst (workers ?st3) = map fst (workers st)"
      and n: "Suc (notDone (workers ?st3)) = notDone (workers st)"
      by (simp_all add: obj_keys_def obj_get_def ws3)
    from k assms(2) have s3: "sorted_wrt (<) (obj_keys (workers ?st3))"
      by (simp add: obj_keys_def)
    have a3: "activeWorkerCount ?st3 = activeWorkerCount st - 1"
      using activeWorkerCount_notDone [OF s3] activeWorkerCount_notDone [OF assms(2)] n
      by simp
    have fr: "\<forall>q. reported ?st3 q = (reported st q \<or> q = pid m)"
      by (simp add: reported_def ws3 obj_get_obj_set)
    have r4: "reported (?st3\<lparr>intermediates := []\<rparr>) = reported ?st3"
      by (simp add: reported_def fun_eq_iff)
    have k3: "obj_keys (workers ?st3) = obj_keys (workers st)"
      using k by (simp add: obj_keys_def)
    have wk: "workers (?st3\<lparr>intermediates := []\<rparr>) = workers ?st3"
      by simp
    have a4: "activeWorkerCount (?st3\<lparr>intermediates := []\<rparr>) = activeWorkerCount ?st3"
      by (simp add: activeWorkerCount_def)
    show ?thesis
    proof (cases "activeWorkerCount ?st3 = 0")
      case True
      with assms(1) Message 3 w have
        "st' = ?st3\<lparr>intermediates := []\<rparr>"
        "evs = snd (sendStats rnd combine st) @ [DoneEv (combine (allIntermediates st))]"
        by (simp_all add: step_def onWorkerMessage_done)
      with True a3 a4 s3 fr r4 k3 Message 3 show ?thesis
        by (simp add: sendStats_eq doneCount_def wk flush_before_done_def)
    next
      case False
      with assms(1) Message 3 w have "st' = ?st3" "evs = []"
        by (simp_all add: step_def onWorkerMessage_done)
      with False a3 s3 fr k3 Message 3 show ?thesis
        by (simp add: doneCount_def flush_before_done_def)
    qed
  next
    case 4
    with assms Message show ?thesis
      by (auto simp: step_def onWorkerMessage_other doneCount_def flush_before_done_def)
  qed
qed

lemma done_pids_Cons: "done_pids (i # ins) = done_pids [i] @ done_pids ins"
  by (cases i) simp_all

lemma deliver_done:
  assumes "deliver rnd combine st ins = Inr (st', evs)"
    and "sorted_wrt (<) (obj_keys (workers st))"
    and "distinct (done_pids ins)"
    and "\<forall>p\<in>set (done_pids ins). \<not> reported st p"
  shows "sorted_wrt (<) (obj_keys (workers st')) \<and>
         obj_keys (workers st') = obj_keys (workers st) \<and>
         (\<forall>q. reported st' q = (reported st q \<or> q \<in> set (done_pids ins))) \<and>
         activeWorkerCount st' = activeWorkerCount st - int (length (done_pids ins)) \<and>
         doneCount evs = (if 0 < activeWorkerCount st \<and> activeWorkerCount st' = 0 then 1 else 0) \<and>
         flush_before_done evs"
  using assms
proof (induction ins arbitrary: st evs)
  case Nil
  then show ?case by (simp add: doneCount_def flush_before_done_def)
next
  case (Cons i ins)
  from Cons.prems(1) obtain st1 evs1 evs2 where
    s: "step rnd combine st i = Inr (st1, evs1)" and
    d: "deliver rnd combine st1 ins = Inr (st', evs2)" and e: "evs = evs1 @ evs2"
    by (rule deliver_Cons_Inr)
  have dp: "done_pids (i # ins) = done_pids [i] @ done_pids ins"
    by (rule done_pids_Cons)
  from Cons.prems(3) dp have d1: "distinct (done_pids ins)"
    and dj: "set (done_pids [i]) \<inter> set (done_pids ins) = {}"
    by simp_all
  from Cons.prems(4) dp have h1: "\<forall>p\<in>set (done_pids [i]). \<not> reported st p"
    by auto
  from step_done [OF s Cons.prems(2) h1] Cons.prems(2) have
    s1: "sorted_wrt (<) (obj_keys (workers st1))" and
    a1: "activeWorkerCount st1 = activeWorkerCount st - int (length (done_pids [i]))" and
    c1: "doneCount evs1 = (if done_pids [i] \<noteq> [] \<and> activeWorkerCount st1 = 0 then 1 else 0)" and
    f1: "flush_before_done evs1" and
    k1: "obj_keys (workers st1) = obj_keys (workers st)" and
    r1: "\<forall>q. reported st1 q = (reported st q \<or> q \<in> set (done_pids [i]))"
    by simp_all
  have h2: "\<forall>p\<in>set (done_pids ins). \<not> reported st1 p"
    using r1 dj dp Cons.prems(4) by auto
  from Cons.IH [OF d s1 d1 h2] s1 have
    s2: "sorted_wrt (<) (obj_keys (workers st'))" and
    k2: "obj_keys (workers st') = obj_keys (workers st1)" and
    r2: "\<forall>q. reported st' q = (reported st1 q \<or> q \<in> set (done_pids ins))" and
    a2: "activeWorkerCount st' = activeWorkerCount st1 - int (length (done_pids ins))" and
    c2: "doneCount evs2 = (if 0 < activeWorkerCount st1 \<and> activeWorkerCount st' = 0 then 1 else 0)" and
    f2: "flush_before_done evs2"
    by simp_all
  have n2: "0 \<le> activeWorkerCount st'" using activeWorkerCount_notDone [OF s2] by simp
  have l1: "length (done_pids [i]) \<le> 1" by (cases i) simp_all
  have mono: "activeWorkerCount st' \<le> activeWorkerCount st1"
    using a2 by simp
  have cnt: "doneCount evs = (if 0 < activeWorkerCount st \<and> activeWorkerCount st' = 0 then 1 else 0)"
    using c1 c2 a1 n2 l1 e mono by (auto simp: doneCount_append split: if_splits)
  have r: "\<forall>q. reported st' q = (reported st q \<or> q \<in> set (done_pids (i # ins)))"
    using r1 r2 dp by auto
  from s2 k1 k2 r a1 a2 cnt f1 f2 e dp show ?case
    by (simp add: flush_before_done_append)
qed


lemma activeWorkerCount_zero_iff:
  assumes "sorted_wrt (<) (obj_keys (workers st))"
  shows "(activeWorkerCount st = 0) = (\<forall>p\<in>set (obj_keys (workers st)). reported st p)"
proof -
  have d: "distinct (map fst (workers st))"
    using sorted_keys_distinct [OF assms] by (simp add: obj_keys_def)
  have g: "obj_get (workers st) p = Some w" if "(p, w) \<in> set (workers st)" for p w
    using that d by (simp add: obj_get_def)
  have "(notDone (workers st) = 0) = (\<forall>kv\<in>set (workers st). isDone (snd kv))"
    by (simp add: notDone_def filter_empty_conv)
  also have "\<dots> = (\<forall>p\<in>set (obj_keys (workers st)). reported st p)"
    using g by (force simp: obj_keys_def reported_def)
  finally show ?thesis
    using activeWorkerCount_notDone [OF assms] by simp
qed

lemma obj_set_keys_present:
  assumes "sorted_wrt (<) (map fst kvs)" and "map_of kvs p = Some w"
  shows "map fst (obj_set p w' kvs) = map fst kvs"
  using assms
proof (induction kvs)
  case Nil
  then show ?case by simp
next
  case (Cons a kvs)
  obtain k v where a: "a = (k, v)" by (cases a)
  show ?case
  proof (cases "p = k")
    case True
    with a show ?thesis by simp
  next
    case False
    with Cons.prems a have m: "map_of kvs p = Some w" by simp
    then have "p \<in> set (map fst kvs)" by (metis map_of_eq_None_iff option.distinct(1) set_map)
    with Cons.prems(1) a have "k < p" by auto
    with Cons.IH [OF _ m] Cons.prems(1) a False show ?thesis by simp
  qed
qed

lemma step_reported:
  assumes "step rnd combine st i = Inr (st', evs)"
    and "sorted_wrt (<) (obj_keys (workers st))"
  shows "obj_keys (workers st') = obj_keys (workers st) \<and>
         (\<forall>q. reported st' q = (reported st q \<or> q \<in> set (done_pids [i]))) \<and>
         set (done_pids [i]) \<subseteq> set (obj_keys (workers st)) \<and>
         doneCount evs = (if done_pids [i] \<noteq> [] \<and> activeWorkerCount st' = 0 then 1 else 0) \<and>
         flush_before_done evs"
proof (cases i)
  case Tick
  with assms show ?thesis
    by (auto simp: step_def sendStats_eq doneCount_def activeWorkerCount_def flush_before_done_def
             reported_def)
next
  case (Message m)
  consider "event m = ''phaseStarted''" | "event m = ''stats''" | "event m = ''done''"
    | "event m \<noteq> ''phaseStarted''" "event m \<noteq> ''stats''" "event m \<noteq> ''done''"
    by blast
  then show ?thesis
  proof cases
    case 1
    with assms Message show ?thesis
      by (auto simp: step_def onWorkerMessage_phaseStarted doneCount_def activeWorkerCount_def
               flush_before_done_def reported_def split: if_splits)
  next
    case 2
    with assms Message show ?thesis
      by (auto simp: step_def onWorkerMessage_stats doneCount_def activeWorkerCount_def
               flush_before_done_def reported_def)
  next
    case 3
    with assms(1) Message obtain w where w: "obj_get (workers st) (pid m) = Some w"
      by (auto simp: step_def onWorkerMessage_done split: option.splits)
    let ?w' = "w\<lparr>isDone := True, proc := (proc w)\<lparr>killed := True\<rparr>\<rparr>"
    let ?st3 = "markDone st (pid m) w"
    have ws3: "workers ?st3 = obj_set (pid m) ?w' (workers st)"
      by (simp add: markDone_def)
    have k3: "obj_keys (workers ?st3) = obj_keys (workers st)"
      using obj_set_keys_present [of "workers st" "pid m" w ?w'] assms(2) w
      by (simp add: obj_keys_def obj_get_def ws3)
    have mem: "pid m \<in> set (obj_keys (workers st))"
      using w by (metis map_of_eq_None_iff obj_get_def obj_keys_def option.distinct(1) set_map)
    have fr: "\<forall>q. reported ?st3 q = (reported st q \<or> q = pid m)"
      by (simp add: reported_def ws3 obj_get_obj_set)
    have r4: "reported (?st3\<lparr>intermediates := []\<rparr>) = reported ?st3"
      by (simp add: reported_def fun_eq_iff)
    have wk: "workers (?st3\<lparr>intermediates := []\<rparr>) = workers ?st3"
      by simp
    have a4: "activeWorkerCount (?st3\<lparr>intermediates := []\<rparr>) = activeWorkerCount ?st3"
      by (simp add: activeWorkerCount_def)
    show ?thesis
    proof (cases "activeWorkerCount ?st3 = 0")
      case True
      with assms(1) Message 3 w have
        "st' = ?st3\<lparr>intermediates := []\<rparr>"
        "evs = snd (sendStats rnd combine st) @ [DoneEv (combine (allIntermediates st))]"
        by (simp_all add: step_def onWorkerMessage_done)
      with True a4 fr r4 k3 mem Message 3 show ?thesis
        by (simp add: sendStats_eq doneCount_def wk flush_before_done_def)
    next
      case False
      with assms(1) Message 3 w have "st' = ?st3" "evs = []"
        by (simp_all add: step_def onWorkerMessage_done)
      with False fr k3 mem Message 3 show ?thesis
        by (simp add: doneCount_def flush_before_done_def)
    qed
  next
    case 4
    with assms Message show ?thesis
      by (auto simp: step_def onWorkerMessage_other doneCount_def flush_before_done_def)
  qed
qed

lemma done_pids_append: "done_pids (xs @ ys) = done_pids xs @ done_pids ys"
  by (induction xs rule: done_pids.induct) simp_all

lemma all_reported_Cons:
  assumes "obj_keys (workers st1) = obj_keys (workers st)"
    and "\<forall>q. reported st1 q = (reported st q \<or> q \<in> set (done_pids [i]))"
  shows "all_reported st (i # xs) = all_reported st1 xs"
  using assms done_pids_Cons [of i xs] by (auto simp: all_reported_def)

lemma all_reported_mono:
  "all_reported st (take n ins) \<Longrightarrow> all_reported st ins"
proof -
  have "set (done_pids (take n ins)) \<subseteq> set (done_pids ins)"
    using done_pids_append [of "take n ins" "drop n ins"] by auto
  then show "all_reported st (take n ins) \<Longrightarrow> all_reported st ins"
    by (auto simp: all_reported_def)
qed

lemma deliver_completions:
  assumes "deliver rnd combine st ins = Inr (st', evs)"
    and "sorted_wrt (<) (obj_keys (workers st))"
  shows "doneCount evs = length (filter (completing st ins) [0..<length ins]) \<and>
         flush_before_done evs \<and>
         set (done_pids ins) \<subseteq> set (obj_keys (workers st))"
  using assms
proof (induction ins arbitrary: st evs)
  case Nil
  then show ?case by (simp add: doneCount_def flush_before_done_def)
next
  case (Cons i ins)
  from Cons.prems(1) obtain st1 evs1 evs2 where
    s: "step rnd combine st i = Inr (st1, evs1)" and
    d: "deliver rnd combine st1 ins = Inr (st', evs2)" and e: "evs = evs1 @ evs2"
    by (rule deliver_Cons_Inr)
  from step_reported [OF s Cons.prems(2)] have
    k1: "obj_keys (workers st1) = obj_keys (workers st)" and
    r1: "\<forall>q. reported st1 q = (reported st q \<or> q \<in> set (done_pids [i]))" and
    m1: "set (done_pids [i]) \<subseteq> set (obj_keys (workers st))" and
    c1: "doneCount evs1 = (if done_pids [i] \<noteq> [] \<and> activeWorkerCount st1 = 0 then 1 else 0)" and
    f1: "flush_before_done evs1"
    by simp_all
  from k1 Cons.prems(2) have s1: "sorted_wrt (<) (obj_keys (workers st1))"
    by simp
  from Cons.IH [OF d s1] have
    c2: "doneCount evs2 = length (filter (completing st1 ins) [0..<length ins])" and
    f2: "flush_before_done evs2" and
    m2: "set (done_pids ins) \<subseteq> set (obj_keys (workers st1))"
    by simp_all
  have z: "(activeWorkerCount st1 = 0) = all_reported st [i]"
    using activeWorkerCount_zero_iff [OF s1] all_reported_Cons [OF k1 r1, of "[]"]
    by (simp add: all_reported_def)
  have c0: "completing st (i # ins) 0 = (done_pids [i] \<noteq> [] \<and> activeWorkerCount st1 = 0)"
    by (simp add: completing_def z)
  have cS: "completing st (i # ins) (Suc k) = completing st1 ins k" for k
    by (simp add: completing_def all_reported_Cons [OF k1 r1])
  have "[0..<length (i # ins)] = 0 # map Suc [0..<length ins]"
    by (simp add: upt_conv_Cons map_Suc_upt del: upt_Suc)
  then have "length (filter (completing st (i # ins)) [0..<length (i # ins)]) =
        (if completing st (i # ins) 0 then 1 else 0)
          + length (filter (completing st1 ins) [0..<length ins])"
    by (simp add: filter_map comp_def cS del: upt_Suc)
  with c0 c1 c2 e have cnt:
    "doneCount evs = length (filter (completing st (i # ins)) [0..<length (i # ins)])"
    by (simp add: doneCount_append)
  from m1 m2 k1 done_pids_Cons [of i ins] have
    "set (done_pids (i # ins)) \<subseteq> set (obj_keys (workers st))"
    by auto
  with cnt f1 f2 e show ?case
    by (simp add: flush_before_done_append)
qed

lemma deliver_keys:
  assumes "deliver rnd combine st ins = Inr (st', evs)"
    and "sorted_wrt (<) (obj_keys (workers st))"
  shows "obj_keys (workers st') = obj_keys (workers st)"
  using assms
proof (induction ins arbitrary: st evs)
  case Nil
  then show ?case by simp
next
  case (Cons i ins)
  from Cons.prems(1) obtain st1 evs1 evs2 where
    s: "step rnd combine st i = Inr (st1, evs1)" and
    d: "deliver rnd combine st1 ins = Inr (st', evs2)"
    by (rule deliver_Cons_Inr)
  from step_reported [OF s Cons.prems(2)] have k: "obj_keys (workers st1) = obj_keys (workers st)"
    by simp
  with Cons.IH [OF d] Cons.prems(2) show ?case
    by simp
qed

lemma done_pids_nth:
  "k < length ins \<Longrightarrow> set (done_pids [ins ! k]) \<subseteq> set (done_pids ins)"
proof -
  assume "k < length ins"
  then have "ins = take k ins @ [ins ! k] @ drop (Suc k) ins"
    by (simp add: id_take_nth_drop)
  then have "done_pids ins = done_pids (take k ins) @ done_pids [ins ! k] @ done_pids (drop (Suc k) ins)"
    by (metis done_pids_append)
  then show ?thesis by auto
qed

text \<open>
  C2, as the code has it. Over any sequence of inputs handled without a fault, from a
  state whose workers object is well formed (keys in ascending order), the \<^verbatim>\<open>done\<close> event
  fires once for every \<^verbatim>\<open>done\<close> message with which, counting it, every registered worker
  has reported \<^verbatim>\<open>done\<close>: the message that completes the run and every \<^verbatim>\<open>done\<close> message
  handled after it. Each \<^verbatim>\<open>done\<close> event comes directly after the \<^verbatim>\<open>stats\<close> event of a
  final flush. It has not fired while some registered worker has not reported, and it never
  fires when no worker is registered. When no worker sends \<^verbatim>\<open>done\<close> twice and none that is
  already done sends it, it fires once if some worker was not done at the start and all
  have reported, and not at all otherwise.
\<close>

theorem done_fires_on_completion:
  assumes "sorted_wrt (<) (obj_keys (workers st))"
    and "deliver rnd combine st ins = Inr (st', evs)"
  shows "doneCount evs = length (filter (completing st ins) [0..<length ins])
         \<and> flush_before_done evs
         \<and> (\<not> all_reported st ins \<longrightarrow> doneCount evs = 0)
         \<and> (workers st = [] \<longrightarrow> doneCount evs = 0)
         \<and> (distinct (done_pids ins) \<and> (\<forall>p\<in>set (done_pids ins). \<not> reported st p) \<longrightarrow>
              doneCount evs = (if 0 < activeWorkerCount st \<and> all_reported st ins then 1 else 0))"
proof -
  from deliver_completions [OF assms(2,1)] have
    a: "doneCount evs = length (filter (completing st ins) [0..<length ins])" and
    f: "flush_before_done evs" and
    m: "set (done_pids ins) \<subseteq> set (obj_keys (workers st))"
    by simp_all
  have c: "doneCount evs = 0" if "\<not> all_reported st ins"
  proof -
    have "\<not> completing st ins k" for k
      using that all_reported_mono [of st "Suc k" ins] by (auto simp: completing_def)
    then show ?thesis by (simp add: a)
  qed
  have d: "doneCount evs = 0" if "workers st = []"
  proof -
    from m that have "done_pids ins = []" by (simp add: obj_keys_def)
    then have "\<not> completing st ins k" if "k < length ins" for k
      using done_pids_nth [OF that] by (simp add: completing_def)
    then have "filter (completing st ins) [0..<length ins] = []"
      by (simp add: filter_empty_conv)
    then show ?thesis by (simp add: a)
  qed
  have e: "doneCount evs = (if 0 < activeWorkerCount st \<and> all_reported st ins then 1 else 0)"
    if "distinct (done_pids ins)" and "\<forall>p\<in>set (done_pids ins). \<not> reported st p"
  proof -
    from deliver_done [OF assms(2,1) that] have
      s: "sorted_wrt (<) (obj_keys (workers st'))" and
      k: "obj_keys (workers st') = obj_keys (workers st)" and
      r: "\<forall>q. reported st' q = (reported st q \<or> q \<in> set (done_pids ins))" and
      c: "doneCount evs = (if 0 < activeWorkerCount st \<and> activeWorkerCount st' = 0 then 1 else 0)"
      using assms(1) by simp_all
    show ?thesis
      using c activeWorkerCount_zero_iff [OF s] k r by (simp add: all_reported_def)
  qed
  show ?thesis
    using a f c d e by blast
qed

section \<open>Starting a run\<close>

lemma spawn_frame:
  "intermediates (spawn fork st js) = intermediates st \<and>
   allIntermediates (spawn fork st js) = allIntermediates st \<and>
   currentPhase (spawn fork st js) = currentPhase st \<and>
   timers (spawn fork st js) = timers st \<and>
   script_of (spawn fork st js) = script_of st"
  by (simp add: spawn_def Let_def)

lemma foldl_spawn_frame:
  "intermediates (foldl (spawn fork) st xs) = intermediates st \<and>
   allIntermediates (foldl (spawn fork) st xs) = allIntermediates st \<and>
   currentPhase (foldl (spawn fork) st xs) = currentPhase st \<and>
   timers (foldl (spawn fork) st xs) = timers st \<and>
   script_of (foldl (spawn fork) st xs) = script_of st"
  by (induction xs arbitrary: st) (simp_all add: spawn_frame)

lemma spawn_get:
  "obj_get (workers (spawn fork st js)) p =
     (if p = fork (fst js)
      then Some \<lparr>proc = \<lparr>proc_pid = fork (fst js), killed = False, sent = [snd js]\<rparr>, isDone = False\<rparr>
      else obj_get (workers st) p)"
  by (simp add: spawn_def Let_def obj_get_obj_set)

lemma foldl_spawn_reported:
  "reported (foldl (spawn fork) st (enumerate k xs)) p =
     (p \<notin> fork ` {k..<k + length xs} \<and> reported st p)"
proof (induction xs arbitrary: st k)
  case Nil
  then show ?case by simp
next
  case (Cons x xs)
  have "{k..<k + length (x # xs)} = insert k {Suc k..<Suc k + length xs}"
    by auto
  moreover have "reported (spawn fork st (k, x)) p = (p \<noteq> fork k \<and> reported st p)"
    by (simp add: reported_def spawn_get)
  ultimately show ?case
    using Cons.IH [of "spawn fork st (k, x)" "Suc k"] by auto
qed

lemma foldl_spawn_keys:
  "set (obj_keys (workers (foldl (spawn fork) st (enumerate k xs)))) =
     set (obj_keys (workers st)) \<union> fork ` {k..<k + length xs}"
proof (induction xs arbitrary: st k)
  case Nil
  then show ?case by simp
next
  case (Cons x xs)
  have "{k..<k + length (x # xs)} = insert k {Suc k..<Suc k + length xs}"
    by auto
  moreover have "set (obj_keys (workers (spawn fork st (k, x)))) =
      insert (fork k) (set (obj_keys (workers st)))"
    by (simp add: spawn_def Let_def keys_obj_set)
  ultimately show ?case
    using Cons.IH [of "spawn fork st (k, x)" "Suc k"] by auto
qed

lemma foldl_spawn_sorted:
  "sorted_wrt (<) (obj_keys (workers st)) \<Longrightarrow>
   sorted_wrt (<) (obj_keys (workers (foldl (spawn fork) st xs)))"
  by (induction xs arbitrary: st) (simp_all add: spawn_def Let_def sorted_obj_set)

lemma run_eq:
  "run env cpus divideWork fork st =
     (foldl (spawn fork) st
        (enumerate 0 (map (\<lambda>s. s\<lparr>statsInterval := 1\<rparr>)
           (divideWork (script_of st) (numWorkers env cpus)))))
     \<lparr>timers := timers st @ [statsInterval (script_of st) * 1000]\<rparr>"
  by (simp add: run_def Let_def foldl_spawn_frame)

text \<open>
  C8, as the code has it. The runner stores no Idle, Running or Completed state and
  \<^verbatim>\<open>run\<close> has no guard: in every state, fresh or already running, it registers one
  not-done worker per worker script, appends one flush timer and leaves the buffers and
  the current phase alone.
\<close>

theorem run_unguarded:
  "timers (run env cpus divideWork fork st) = timers st @ [statsInterval (script_of st) * 1000]
   \<and> set (obj_keys (workers (run env cpus divideWork fork st))) =
       set (obj_keys (workers st))
         \<union> fork ` {..<length (divideWork (script_of st) (numWorkers env cpus))}
   \<and> (\<forall>i<length (divideWork (script_of st) (numWorkers env cpus)).
         \<not> reported (run env cpus divideWork fork st) (fork i))
   \<and> intermediates (run env cpus divideWork fork st) = intermediates st
   \<and> allIntermediates (run env cpus divideWork fork st) = allIntermediates st
   \<and> currentPhase (run env cpus divideWork fork st) = currentPhase st"
proof -
  let ?xs = "map (\<lambda>s. s\<lparr>statsInterval := 1\<rparr>) (divideWork (script_of st) (numWorkers env cpus))"
  have r: "reported (run env cpus divideWork fork st) p =
           reported (foldl (spawn fork) st (enumerate 0 ?xs)) p" for p
    by (simp add: run_eq reported_def)
  have "{0..<length ?xs} = {..<length (divideWork (script_of st) (numWorkers env cpus))}"
    by auto
  then show ?thesis
    using foldl_spawn_keys [of fork st 0 ?xs] foldl_spawn_reported [of fork st 0 ?xs]
    by (auto simp: r) (simp_all add: run_eq foldl_spawn_frame)
qed

text \<open>
  Every state of a run has a well-formed workers object: the constructor's is empty,
  \<^verbatim>\<open>run\<close> keeps the keys in ascending order, and the handlers keep the keys as they are
  (lemma \<open>deliver_keys\<close>).
\<close>

lemma Runner_well_formed: "sorted_wrt (<) (obj_keys (workers (Runner sc)))"
  by (simp add: Runner_def obj_keys_def)

lemma run_well_formed:
  "sorted_wrt (<) (obj_keys (workers st)) \<Longrightarrow>
   sorted_wrt (<) (obj_keys (workers (run env cpus divideWork fork st)))"
  by (simp add: run_eq foldl_spawn_sorted)

lemma numWorkers_cases:
  "numWorkers env cpus =
     (case env of None \<Rightarrow> Num 1 | Some s \<Rightarrow> if s = [] then Num 1 else Str s)"
  by (cases env) (simp_all add: numWorkers_def js_or_def env_value_def)

lemma run_worker_count:
  assumes "inj_on fork {..<length (divideWork sc (numWorkers env cpus))}"
  shows "length (workers (run env cpus divideWork fork (Runner sc :: 'a runner))) =
           length (divideWork sc (numWorkers env cpus))"
proof -
  let ?n = "length (divideWork sc (numWorkers env cpus))"
  let ?xs = "map (\<lambda>s. s\<lparr>statsInterval := 1\<rparr>) (divideWork sc (numWorkers env cpus))"
  let ?st = "foldl (spawn fork) (Runner sc :: 'a runner) (enumerate 0 ?xs)"
  have w: "workers (run env cpus divideWork fork (Runner sc :: 'a runner)) = workers ?st"
    by (simp add: run_eq Runner_def)
  have "sorted_wrt (<) (obj_keys (workers ?st))"
    by (rule foldl_spawn_sorted) (simp add: Runner_def obj_keys_def)
  then have "distinct (obj_keys (workers ?st))"
    by (rule sorted_keys_distinct)
  then have "length (obj_keys (workers ?st)) = card (set (obj_keys (workers ?st)))"
    by (simp add: distinct_card)
  also have "set (obj_keys (workers ?st)) = fork ` {..<?n}"
    using foldl_spawn_keys [of fork "Runner sc :: 'a runner" 0 ?xs]
    by (simp add: Runner_def obj_keys_def lessThan_atLeast0)
  also have "card (fork ` {..<?n}) = ?n"
    using assms by (simp add: card_image)
  finally show ?thesis
    by (simp add: w obj_keys_def)
qed

text \<open>
  C6, as the code has it. Let the work distributor return one script for each worker that
  the resolved pool size asks for, and let the forked processes have different pids. Then
  one worker is spawned when the environment variable is absent or empty, and as many
  workers as the variable's value says when it is present and not empty. The CPU core
  count has no influence on the pool size or on the run.
\<close>

theorem workers_spawned_pool_size:
  assumes "inj_on fork {..<length (divideWork sc (numWorkers env cpus))}"
    and "pool_count (numWorkers env cpus) = Some (length (divideWork sc (numWorkers env cpus)))"
  shows "(env = None \<or> env = Some [] \<longrightarrow>
            length (workers (run env cpus divideWork fork (Runner sc :: 'a runner))) = 1)
         \<and> (\<forall>s. env = Some s \<and> s \<noteq> [] \<longrightarrow>
              decimal 0 s =
                Some (length (workers (run env cpus divideWork fork (Runner sc :: 'a runner)))))
         \<and> numWorkers env cpus = numWorkers env cpus'
         \<and> run env cpus divideWork fork (Runner sc :: 'a runner)
             = run env cpus' divideWork fork (Runner sc)"
proof -
  have n: "numWorkers env cpus = numWorkers env cpus'"
    by (simp add: numWorkers_cases)
  have r: "run env cpus divideWork fork (Runner sc :: 'a runner)
             = run env cpus' divideWork fork (Runner sc)"
    by (simp add: run_def n)
  show ?thesis
    using run_worker_count [where fork = fork and divideWork = divideWork and sc = sc
        and env = env and cpus = cpus and 'a = 'a, OF assms(1)] assms(2) n r
    by (auto simp: numWorkers_cases pool_count_def split: option.splits if_splits)
qed

section \<open>Worked examples\<close>

lemmas ex_simps = script0_def marked_def merge_marks_def phaseStartedMsg_def statsMsg_def
  doneMsg_def worker0_def running_def Runner_def

lemmas run_simps = step_def onWorkerMessage_phaseStarted onWorkerMessage_stats
  onWorkerMessage_done sendStats_eq markDone_def obj_get_def obj_keys_def activeWorkerCount_def

lemma round_ex: "stats_round 0 (Suc 0) = 0" "stats_round 2 (Suc 0) = 2" "stats_round 3 (Suc 0) = 3"
  "stats_round 6 (Suc 0) = 6"
  by code_simp+

lemma agg_ex:
  "aggregate_concurrency ([] :: (nat \<times> nat list snapshot) list) = 0"
  "aggregate_concurrency [(7, marked 3 1)] = 3"
  "aggregate_concurrency [(8, marked 2 2)] = 2"
  "aggregate_concurrency [(8, marked 2 2), (7, marked 4 3)] = 6"
  by code_simp+

theorem phaseStarted_strictly_increasing_witness:
  "deliver stats_round merge_marks (Runner script0)
       [Message (phaseStartedMsg 0), Message (phaseStartedMsg 0), Message (phaseStartedMsg 1),
        Message (phaseStartedMsg 0), Message (phaseStartedMsg 2), Message (phaseStartedMsg 1)]
     = Inr ((Runner script0)\<lparr>currentPhase := 2\<rparr>,
            [PhaseStartedEv \<lparr>index = 0, info = ''''\<rparr>, PhaseStartedEv \<lparr>index = 1, info = ''''\<rparr>,
             PhaseStartedEv \<lparr>index = 2, info = ''''\<rparr>])
   \<and> sorted_wrt (<) [- 1, 0, 1, 2 :: int]
   \<and> currentPhase (Runner script0 :: nat list runner) \<le> 2
   \<and> onWorkerMessage stats_round merge_marks ((Runner script0)\<lparr>currentPhase := 2\<rparr>)
         (phaseStartedMsg 1) = Inr ((Runner script0)\<lparr>currentPhase := 2\<rparr>, [])"
proof -
  have h: "deliver stats_round merge_marks (Runner script0)
       [Message (phaseStartedMsg 0), Message (phaseStartedMsg 0), Message (phaseStartedMsg 1),
        Message (phaseStartedMsg 0), Message (phaseStartedMsg 2), Message (phaseStartedMsg 1)]
     = Inr ((Runner script0)\<lparr>currentPhase := 2\<rparr>,
            [PhaseStartedEv \<lparr>index = 0, info = ''''\<rparr>, PhaseStartedEv \<lparr>index = 1, info = ''''\<rparr>,
             PhaseStartedEv \<lparr>index = 2, info = ''''\<rparr>])"
    by (simp add: step_def onWorkerMessage_phaseStarted phaseStartedMsg_def Runner_def)
  have m: "event (phaseStartedMsg 1) = ''phaseStarted'' \<and>
           index (phase (phaseStartedMsg 1))
             \<le> currentPhase ((Runner script0 :: nat list runner)\<lparr>currentPhase := 2\<rparr>)"
    by (simp add: phaseStartedMsg_def)
  from phaseStarted_strictly_increasing [OF h] m h show ?thesis
    by (simp add: Runner_def)
qed

theorem done_report_full_history_witness:
  "deliver stats_round merge_marks (running [(7, worker0 7 False), (8, worker0 8 False)])
     [Message (statsMsg 7 (marked 3 1)), Tick, Message (statsMsg 8 (marked 2 2)),
      Message (doneMsg 7)]
   = Inr ((running [(7, worker0 7 True), (8, worker0 8 False)])
             \<lparr>intermediates := [(8, marked 2 2)],
               allIntermediates := [marked 3 1, marked 2 2]\<rparr>,
          [StatsEv \<lparr>concurrency = 3, measurements = [1]\<rparr>])
   \<and> onWorkerMessage stats_round merge_marks
        ((running [(7, worker0 7 True), (8, worker0 8 False)])
             \<lparr>intermediates := [(8, marked 2 2)],
               allIntermediates := [marked 3 1, marked 2 2]\<rparr>)
        (doneMsg 8)
     = Inr ((running [(7, worker0 7 True), (8, worker0 8 True)])
             \<lparr>allIntermediates := [marked 3 1, marked 2 2]\<rparr>,
            [StatsEv \<lparr>concurrency = 2, measurements = [2]\<rparr>,
             DoneEv \<lparr>concurrency = 5, measurements = [1, 2]\<rparr>])
   \<and> \<lparr>concurrency = 5, measurements = [1, 2]\<rparr> = merge_marks [marked 3 1, marked 2 2]"
proof -
  have h1: "deliver stats_round merge_marks (running [(7, worker0 7 False), (8, worker0 8 False)])
     [Message (statsMsg 7 (marked 3 1)), Tick, Message (statsMsg 8 (marked 2 2)),
      Message (doneMsg 7)]
   = Inr ((running [(7, worker0 7 True), (8, worker0 8 False)])
             \<lparr>intermediates := [(8, marked 2 2)],
               allIntermediates := [marked 3 1, marked 2 2]\<rparr>,
          [StatsEv \<lparr>concurrency = 3, measurements = [1]\<rparr>])"
    using agg_ex round_ex by (simp add: run_simps ex_simps)
  have h2: "onWorkerMessage stats_round merge_marks
        ((running [(7, worker0 7 True), (8, worker0 8 False)])
             \<lparr>intermediates := [(8, marked 2 2)],
               allIntermediates := [marked 3 1, marked 2 2]\<rparr>)
        (doneMsg 8)
     = Inr ((running [(7, worker0 7 True), (8, worker0 8 True)])
             \<lparr>allIntermediates := [marked 3 1, marked 2 2]\<rparr>,
            [StatsEv \<lparr>concurrency = 2, measurements = [2]\<rparr>,
             DoneEv \<lparr>concurrency = 5, measurements = [1, 2]\<rparr>])"
    using agg_ex round_ex by (simp add: run_simps ex_simps)
  have h3: "DoneEv \<lparr>concurrency = 5, measurements = [1, 2]\<rparr>
      \<in> set [StatsEv \<lparr>concurrency = 2, measurements = [2 :: nat]\<rparr>,
             DoneEv \<lparr>concurrency = 5, measurements = [1, 2]\<rparr>]"
    by simp
  from done_report_full_history [OF h1 h2 h3] h1 h2 show ?thesis
    by (simp add: ex_simps)
qed

theorem flush_clears_buffer_witness:
  "step stats_round merge_marks
     ((running [(7, worker0 7 False), (8, worker0 8 False)])
        \<lparr>intermediates := [(7, marked 3 1)], allIntermediates := [marked 3 1]\<rparr>) Tick
   = Inr ((running [(7, worker0 7 False), (8, worker0 8 False)])
            \<lparr>allIntermediates := [marked 3 1]\<rparr>,
          [StatsEv \<lparr>concurrency = 3, measurements = [1]\<rparr>])
   \<and> deliver stats_round merge_marks
        ((running [(7, worker0 7 False), (8, worker0 8 False)])
            \<lparr>allIntermediates := [marked 3 1]\<rparr>)
        [Message (statsMsg 8 (marked 2 2)), Message (phaseStartedMsg 0),
         Message (statsMsg 7 (marked 4 3))]
     = Inr ((running [(7, worker0 7 False), (8, worker0 8 False)])
              \<lparr>intermediates := [(8, marked 2 2), (7, marked 4 3)],
                allIntermediates := [marked 3 1, marked 2 2, marked 4 3],
                currentPhase := 0\<rparr>,
            [PhaseStartedEv \<lparr>index = 0, info = ''''\<rparr>])
   \<and> sendStats stats_round merge_marks
        ((running [(7, worker0 7 False), (8, worker0 8 False)])
              \<lparr>intermediates := [(8, marked 2 2), (7, marked 4 3)],
                allIntermediates := [marked 3 1, marked 2 2, marked 4 3],
                currentPhase := 0\<rparr>)
     = ((running [(7, worker0 7 False), (8, worker0 8 False)])
              \<lparr>allIntermediates := [marked 3 1, marked 2 2, marked 4 3],
                currentPhase := 0\<rparr>,
        [StatsEv \<lparr>concurrency = 6, measurements = [2, 3]\<rparr>])"
proof -
  have h1: "step stats_round merge_marks
     ((running [(7, worker0 7 False), (8, worker0 8 False)])
        \<lparr>intermediates := [(7, marked 3 1)], allIntermediates := [marked 3 1]\<rparr>) Tick
   = Inr ((running [(7, worker0 7 False), (8, worker0 8 False)])
            \<lparr>allIntermediates := [marked 3 1]\<rparr>,
          [StatsEv \<lparr>concurrency = 3, measurements = [1]\<rparr>])"
    using agg_ex round_ex by (simp add: run_simps ex_simps)
  have h2: "\<exists>e\<in>set [StatsEv \<lparr>concurrency = 3, measurements = [1 :: nat]\<rparr>]. is_stats e"
    by simp
  have h3: "deliver stats_round merge_marks
        ((running [(7, worker0 7 False), (8, worker0 8 False)])
            \<lparr>allIntermediates := [marked 3 1]\<rparr>)
        [Message (statsMsg 8 (marked 2 2)), Message (phaseStartedMsg 0),
         Message (statsMsg 7 (marked 4 3))]
     = Inr ((running [(7, worker0 7 False), (8, worker0 8 False)])
              \<lparr>intermediates := [(8, marked 2 2), (7, marked 4 3)],
                allIntermediates := [marked 3 1, marked 2 2, marked 4 3],
                currentPhase := 0\<rparr>,
            [PhaseStartedEv \<lparr>index = 0, info = ''''\<rparr>])"
    by (simp add: run_simps ex_simps)
  have h4: "\<forall>e\<in>set [PhaseStartedEv \<lparr>index = 0, info = ''''\<rparr> :: nat list emitted]. \<not> is_stats e"
    by simp
  from flush_clears_buffer [OF h1 h2 h3 h4] h1 h3 agg_ex round_ex show ?thesis
    by (simp add: ex_simps)
qed

theorem done_fires_on_completion_witness:
  "deliver stats_round merge_marks
     (running [(7, worker0 7 False), (8, worker0 8 False), (9, worker0 9 False)])
     [Message (doneMsg 7), Message (statsMsg 8 (marked 2 1)), Message (doneMsg 9)]
   = Inr ((running [(7, worker0 7 True), (8, worker0 8 False), (9, worker0 9 True)])
            \<lparr>intermediates := [(8, marked 2 1)], allIntermediates := [marked 2 1]\<rparr>, [])
   \<and> \<not> all_reported
         (running [(7, worker0 7 False), (8, worker0 8 False), (9, worker0 9 False)])
         [Message (doneMsg 7), Message (statsMsg 8 (marked 2 1)), Message (doneMsg 9)]
   \<and> deliver stats_round merge_marks
     (running [(7, worker0 7 False), (8, worker0 8 False), (9, worker0 9 False)])
     [Message (doneMsg 7), Message (statsMsg 8 (marked 2 1)), Message (doneMsg 9),
      Message (doneMsg 8)]
   = Inr ((running [(7, worker0 7 True), (8, worker0 8 True), (9, worker0 9 True)])
            \<lparr>allIntermediates := [marked 2 1]\<rparr>,
          [StatsEv \<lparr>concurrency = 2, measurements = [1]\<rparr>,
           DoneEv \<lparr>concurrency = 2, measurements = [1]\<rparr>])
   \<and> flush_before_done [StatsEv \<lparr>concurrency = 2, measurements = [1 :: nat]\<rparr>,
           DoneEv \<lparr>concurrency = 2, measurements = [1]\<rparr>]
   \<and> deliver stats_round merge_marks (Runner script0) [Tick]
     = Inr (Runner script0, [StatsEv \<lparr>concurrency = 0, measurements = []\<rparr>])
   \<and> deliver stats_round merge_marks (running [(7, worker0 7 False), (8, worker0 8 False)])
       [Message (doneMsg 7), Message (doneMsg 7), Message (doneMsg 8)]
     = Inr (running [(7, worker0 7 True), (8, worker0 8 True)],
            [StatsEv \<lparr>concurrency = 0, measurements = []\<rparr>,
             DoneEv \<lparr>concurrency = 0, measurements = []\<rparr>])
   \<and> length (filter (completing (running [(7, worker0 7 False), (8, worker0 8 False)])
          [Message (doneMsg 7), Message (doneMsg 7), Message (doneMsg 8)]) [0..<3]) = 1"
proof -
  let ?st3 = "running [(7, worker0 7 False), (8, worker0 8 False), (9, worker0 9 False)]"
  let ?st2 = "running [(7, worker0 7 False), (8, worker0 8 False)]"
  let ?two = "[Message (doneMsg 7), Message (statsMsg 8 (marked 2 1)), Message (doneMsg 9)]"
  let ?all = "[Message (doneMsg 7), Message (statsMsg 8 (marked 2 1)), Message (doneMsg 9),
      Message (doneMsg 8)]"
  let ?dup = "[Message (doneMsg 7), Message (doneMsg 7), Message (doneMsg 8)]"
  have s3: "sorted_wrt (<) (obj_keys (workers ?st3))"
    and s2: "sorted_wrt (<) (obj_keys (workers ?st2))"
    and s0: "sorted_wrt (<) (obj_keys (workers (Runner script0 :: nat list runner)))"
    by (simp_all add: obj_keys_def ex_simps)
  have agg: "aggregate_concurrency [(8, marked 2 1)] = 2"
    by code_simp
  have r1: "deliver stats_round merge_marks ?st3 ?two
   = Inr ((running [(7, worker0 7 True), (8, worker0 8 False), (9, worker0 9 True)])
            \<lparr>intermediates := [(8, marked 2 1)], allIntermediates := [marked 2 1]\<rparr>, [])"
    by (simp add: run_simps ex_simps)
  have r2: "deliver stats_round merge_marks ?st3 ?all
   = Inr ((running [(7, worker0 7 True), (8, worker0 8 True), (9, worker0 9 True)])
            \<lparr>allIntermediates := [marked 2 1]\<rparr>,
          [StatsEv \<lparr>concurrency = 2, measurements = [1]\<rparr>,
           DoneEv \<lparr>concurrency = 2, measurements = [1]\<rparr>])"
    using agg round_ex by (simp add: run_simps ex_simps)
  have r3: "deliver stats_round merge_marks (Runner script0) [Tick]
     = Inr (Runner script0, [StatsEv \<lparr>concurrency = 0, measurements = []\<rparr>])"
    using agg_ex round_ex by (simp add: run_simps ex_simps)
  have r4: "deliver stats_round merge_marks ?st2 ?dup
     = Inr (running [(7, worker0 7 True), (8, worker0 8 True)],
            [StatsEv \<lparr>concurrency = 0, measurements = []\<rparr>,
             DoneEv \<lparr>concurrency = 0, measurements = []\<rparr>])"
    using agg_ex round_ex by (simp add: run_simps ex_simps)
  have n1: "\<not> all_reported ?st3 ?two"
    by (simp add: all_reported_def reported_def obj_get_def obj_keys_def ex_simps)
  have d2: "distinct (done_pids ?all) \<and> (\<forall>p\<in>set (done_pids ?all). \<not> reported ?st3 p)"
    by (simp add: reported_def obj_get_def ex_simps)
  have w0: "workers (Runner script0 :: nat list runner) = []"
    by (simp add: Runner_def)
  have e1: "doneCount ([] :: nat list emitted list) = 0"
    using done_fires_on_completion [OF s3 r1] n1 by blast
  have e2: "doneCount [StatsEv \<lparr>concurrency = 2, measurements = [1 :: nat]\<rparr>,
           DoneEv \<lparr>concurrency = 2, measurements = [1]\<rparr>]
        = (if 0 < activeWorkerCount ?st3 \<and> all_reported ?st3 ?all then 1 else 0)"
    using done_fires_on_completion [OF s3 r2] d2 by blast
  have f2: "flush_before_done [StatsEv \<lparr>concurrency = 2, measurements = [1 :: nat]\<rparr>,
           DoneEv \<lparr>concurrency = 2, measurements = [1]\<rparr>]"
    using done_fires_on_completion [OF s3 r2] by blast
  have e3: "doneCount [StatsEv \<lparr>concurrency = 0, measurements = [] :: nat list\<rparr>] = 0"
    using done_fires_on_completion [OF s0 r3] w0 by blast
  have l: "length ?dup = 3"
    by simp
  have dc: "doneCount [StatsEv \<lparr>concurrency = 0, measurements = [] :: nat list\<rparr>,
             DoneEv \<lparr>concurrency = 0, measurements = []\<rparr>] = 1"
    by (simp add: doneCount_def)
  have c4: "length (filter (completing ?st2 ?dup) [0..<3]) = 1"
    using done_fires_on_completion [OF s2 r4, THEN conjunct1, unfolded l] dc by linarith
  from r1 n1 r2 f2 r3 r4 c4 e1 e2 e3 show ?thesis
    by blast
qed

theorem done_fires_twice_counterexample:
  "deliver stats_round merge_marks (running [(7, worker0 7 False)])
     [Message (doneMsg 7), Message (doneMsg 7)]
   = Inr (running [(7, worker0 7 True)],
          [StatsEv \<lparr>concurrency = 0, measurements = []\<rparr>,
           DoneEv \<lparr>concurrency = 0, measurements = []\<rparr>,
           StatsEv \<lparr>concurrency = 0, measurements = []\<rparr>,
           DoneEv \<lparr>concurrency = 0, measurements = []\<rparr>])
   \<and> doneCount [StatsEv \<lparr>concurrency = 0, measurements = [] :: nat list\<rparr>,
           DoneEv \<lparr>concurrency = 0, measurements = []\<rparr>,
           StatsEv \<lparr>concurrency = 0, measurements = []\<rparr>,
           DoneEv \<lparr>concurrency = 0, measurements = []\<rparr>] = 2"
  using agg_ex round_ex by (simp add: run_simps ex_simps doneCount_def)

lemma pool_ex:
  "pool_count (numWorkers (Some ''12'') 8) = Some 12"
  "pool_count (numWorkers None 8) = Some 1"
  "pool_count (numWorkers (Some '''') 8) = Some 1"
  by (simp_all add: pool_count_def numWorkers_cases digit_def)

theorem workers_spawned_pool_size_witness:
  "decimal 0 ''12'' =
     Some (length (workers (run (Some ''12'') 8 divideWork_spec (\<lambda>i. 100 + i)
        (Runner script0 :: nat list runner))))
   \<and> length (workers (run None 8 divideWork_spec (\<lambda>i. 100 + i)
        (Runner script0 :: nat list runner))) = 1
   \<and> decimal 0 ''12'' = Some 12"
proof -
  have i1: "inj_on (\<lambda>i::nat. 100 + i)
              {..<length (divideWork_spec script0 (numWorkers (Some ''12'') 8))}"
    and i2: "inj_on (\<lambda>i::nat. 100 + i) {..<length (divideWork_spec script0 (numWorkers None 8))}"
    by (simp_all add: inj_on_def)
  have p1: "pool_count (numWorkers (Some ''12'') 8) =
              Some (length (divideWork_spec script0 (numWorkers (Some ''12'') 8)))"
    and p2: "pool_count (numWorkers None 8) =
              Some (length (divideWork_spec script0 (numWorkers None 8)))"
    by (simp_all add: divideWork_spec_def pool_ex)
  have d: "decimal 0 ''12'' = Some 12"
    by (simp add: digit_def)
  from workers_spawned_pool_size [where fork = "\<lambda>i. 100 + i" and divideWork = divideWork_spec
        and sc = script0 and env = "Some ''12''" and cpus = 8 and cpus' = 2
        and 'a = "nat list", OF i1 p1]
    workers_spawned_pool_size [where fork = "\<lambda>i. 100 + i" and divideWork = divideWork_spec
        and sc = script0 and env = None and cpus = 8 and cpus' = 2
        and 'a = "nat list", OF i2 p2] d
  show ?thesis
    by auto
qed

theorem pool_size_empty_counterexample:
  "length (workers (run (Some '''') 8 divideWork_spec (\<lambda>i. 100 + i)
      (Runner script0 :: nat list runner))) = 1
   \<and> pool_count (env_value (Some '''')) \<noteq> Some 1"
proof -
  have "run (Some '''') 8 divideWork_spec (\<lambda>i. 100 + i) (Runner script0 :: nat list runner)
        = (Runner script0)\<lparr>workers := [(100, worker0 100 False)], timers := [10000]\<rparr>"
    by (simp add: run_def spawn_def divideWork_spec_def pool_count_def ex_simps numWorkers_cases)
  then show ?thesis
    by (simp add: pool_count_def env_value_def)
qed

theorem run_unguarded_witness:
  "timers (run None 4 (\<lambda>s n. [s, s]) (\<lambda>i. 20 + i) (running [(7, worker0 7 True)]))
     = [10000, 10000]
   \<and> set (obj_keys (workers
        (run None 4 (\<lambda>s n. [s, s]) (\<lambda>i. 20 + i) (running [(7, worker0 7 True)]))))
     = {7, 20, 21}
   \<and> \<not> reported (run None 4 (\<lambda>s n. [s, s]) (\<lambda>i. 20 + i) (running [(7, worker0 7 True)])) 20
   \<and> \<not> reported (run None 4 (\<lambda>s n. [s, s]) (\<lambda>i. 20 + i) (running [(7, worker0 7 True)])) 21"
proof -
  have l: "{..<length ((\<lambda>s n. [s, s]) (script_of (running [(7, worker0 7 True)]))
              (numWorkers None 4))} = {0, 1 :: nat}"
    by auto
  from run_unguarded [of None 4 "\<lambda>s n. [s, s]" "\<lambda>i. 20 + i" "running [(7, worker0 7 True)]"]
  show ?thesis
    by (auto simp: l obj_keys_def ex_simps)
qed

theorem run_twice_counterexample:
  "run None 4 (\<lambda>s n. [s]) (\<lambda>i. 8) (run None 4 (\<lambda>s n. [s]) (\<lambda>i. 7) (Runner script0))
   = (Runner script0 :: nat list runner)
       \<lparr>workers := [(7, worker0 7 False), (8, worker0 8 False)], timers := [10000, 10000]\<rparr>"
  by (simp add: run_def spawn_def numWorkers_def js_or_def env_value_def ex_simps)

end
